theory Spec2Isabelle
  imports Complex_Main "HOL-Library.AList"
begin

section \<open>Data model (schemas/pipeline.py)\<close>

text \<open>
  Python values that stage executors hand to the orchestrator. A dictionary is an
  association list in insertion order (keys are strings), a dataclass instance carries
  its class name and its fields in declaration order. The orchestrator never computes
  with a float, it only passes it on.
\<close>

datatype pyval =
    VNone
  | VBool bool
  | VInt int
  | VFloat real
  | VStr string
  | VList "pyval list"
  | VTuple "pyval list"
  | VDict "(string \<times> pyval) list"
  | VData string "(string \<times> pyval) list"

type_synonym pydict = "(string \<times> pyval) list"

datatype PipelinePlatform = instagram | tiktok

datatype PipelineStage =
  ingest | narrative | voiceover | editing | packaging | analytics | completed

text \<open>\<open>PipelineStage.value\<close>: the enum's string value.\<close>

fun stage_value :: "PipelineStage \<Rightarrow> string" where
  "stage_value ingest = ''ingest''"
| "stage_value narrative = ''narrative''"
| "stage_value voiceover = ''voiceover''"
| "stage_value editing = ''editing''"
| "stage_value packaging = ''packaging''"
| "stage_value analytics = ''analytics''"
| "stage_value PipelineStage.completed = ''completed''"

text \<open>
  \<open>PipelineRunStatus\<close>. The member \<open>completed\<close> is written \<open>run_completed\<close> here,
  since \<open>PipelineStage\<close> has a member of the same name.
\<close>

datatype PipelineRunStatus = queued | running | run_completed | error

record PipelineStageSnapshot =
  stage :: PipelineStage
  status :: string
  detail :: "string option"
  payload :: "pydict option"

record PipelineRunRequest =
  req_run_name :: string
  platforms :: "PipelinePlatform list"
  stock_keywords :: "string list"
  req_notes :: "string option"

record PipelineRunResponse =
  resp_run_name :: string
  resp_stages :: "PipelineStageSnapshot list"
  resp_outputs :: pydict

record PipelineRunStatusResponse =
  sr_run_id :: string
  sr_run_name :: string
  sr_status :: PipelineRunStatus
  sr_stages :: "PipelineStageSnapshot list"
  sr_outputs :: pydict

section \<open>Exceptions\<close>

text \<open>
  Every raise of the source is a value. \<open>Failure m\<close> is an exception raised inside a
  stage executor whose \<open>str()\<close> is \<open>m\<close>; \<open>RuntimeError m\<close> is the one
  \<open>_run_stage\<close> raises itself. The others are raised by the Python runtime and by
  the libraries the code calls: iterating or measuring a value that is not iterable
  (\<open>NotIterable\<close>), reading an attribute or method a value does not have
  (\<open>AttributeError\<close>), a snapshot payload that is neither a dict nor None
  (\<open>ValidationError\<close>), \<open>json.dumps\<close> on a value JSON cannot hold
  (\<open>NotSerializable\<close>) and \<open>Path()\<close> on a value that is not a string
  (\<open>PathTypeError\<close>).
\<close>

datatype exn =
    Failure string
  | RuntimeError string
  | NotIterable pyval
  | AttributeError pyval string
  | ValidationError pyval
  | NotSerializable
  | PathTypeError pyval

section \<open>Run state (services/run\_state.py)\<close>

text \<open>
  An item of a run's queue is the event dictionary handed to \<open>_serialize_event\<close>
  (its JSON text is not modelled, only whether \<open>json.dumps\<close> accepts it), or
  \<open>None\<close>, the sentinel that closes the channel. The field \<open>queue\<close> of a run
  lists every item put on its queue, oldest first: the stream endpoint, which takes
  items off the Python queue, is not modelled.
\<close>

datatype event =
    Init string string "PipelineStageSnapshot list"
  | RunEvent string PipelineRunStatus
  | StageEvent string PipelineStageSnapshot
  | Complete string PipelineRunResponse
  | ErrorEvent string string

definition PIPELINE_STAGE_ORDER :: "PipelineStage list" where
  "PIPELINE_STAGE_ORDER =
     [ingest, narrative, voiceover, editing, packaging, analytics, PipelineStage.completed]"

record RunState =
  run_id :: string
  run_name :: string
  request :: PipelineRunRequest
  run_status :: PipelineRunStatus
  stages :: "PipelineStage \<rightharpoonup> PipelineStageSnapshot"
  outputs :: pydict
  queue :: "event option list"

text \<open>\<open>RunState.stage_snapshots\<close>: the snapshots present, in declared order.\<close>

definition stage_snapshots :: "RunState \<Rightarrow> PipelineStageSnapshot list" where
  "stage_snapshots state = List.map_filter (stages state) PIPELINE_STAGE_ORDER"

text \<open>\<open>RunStateManager._runs\<close>: run identifier to run state.\<close>

type_synonym registry = "string \<rightharpoonup> RunState"

text \<open>
  \<open>json.dumps\<close> accepts None, booleans, numbers, strings, lists, tuples and
  dictionaries with string keys; it raises TypeError on any other object, here a
  dataclass instance.
\<close>

fun json_ok :: "pyval \<Rightarrow> bool" where
  "json_ok (VList xs) = list_all json_ok xs"
| "json_ok (VTuple xs) = list_all json_ok xs"
| "json_ok (VDict kvs) = list_all (\<lambda>kv. json_ok (snd kv)) kvs"
| "json_ok (VData c fs) = False"
| "json_ok v = True"

definition snapshot_json_ok :: "PipelineStageSnapshot \<Rightarrow> bool" where
  "snapshot_json_ok s = (case payload s of None \<Rightarrow> True | Some d \<Rightarrow> json_ok (VDict d))"

definition response_json_ok :: "PipelineRunResponse \<Rightarrow> bool" where
  "response_json_ok r =
     (list_all snapshot_json_ok (resp_stages r) \<and> json_ok (VDict (resp_outputs r)))"

text \<open>
  The constructor \<open>PipelineStageSnapshot(stage=, status=, detail=, payload=)\<close>: the
  field \<open>payload\<close> is declared \<open>dict[str, Any] | None\<close>, so validation rejects any
  other value.
\<close>

definition make_snapshot ::
  "PipelineStage \<Rightarrow> string \<Rightarrow> string option \<Rightarrow> pyval \<Rightarrow> exn + PipelineStageSnapshot" where
  "make_snapshot s st d p =
     (case p of
        VNone \<Rightarrow> Inr \<lparr>stage = s, status = st, detail = d, payload = None\<rparr>
      | VDict kvs \<Rightarrow> Inr \<lparr>stage = s, status = st, detail = d, payload = Some kvs\<rparr>
      | _ \<Rightarrow> Inl (ValidationError p))"

text \<open>
  \<open>create_run\<close>. The identifier \<open>uuid.uuid4().hex\<close> is supplied by the caller of
  the model as \<open>rid\<close>. Returns the new state and the registry holding it.
\<close>

definition initial_stages :: "PipelineStage \<rightharpoonup> PipelineStageSnapshot" where
  "initial_stages =
     map_of (map (\<lambda>s. (s, \<lparr>stage = s, status = ''queued'',
                             detail = Some ''Awaiting execution'', payload = None\<rparr>))
                 PIPELINE_STAGE_ORDER)"

definition create_run ::
  "registry \<Rightarrow> string \<Rightarrow> string \<Rightarrow> PipelineRunRequest \<Rightarrow> RunState \<times> registry" where
  "create_run reg rid rname req =
     (let state0 = \<lparr>run_id = rid, run_name = rname, request = req, run_status = queued,
                     stages = initial_stages, outputs = [], queue = []\<rparr>;
          state = state0\<lparr>queue := queue state0 @
                     [Some (Init rid rname (stage_snapshots state0))]\<rparr>
      in (state, reg(rid \<mapsto> state)))"

text \<open>
  The registry operations return the exception they raise, if any, and the registry
  they leave behind (a raise does not undo the assignments made before it).
\<close>

definition mark_run_started :: "registry \<Rightarrow> string \<Rightarrow> exn option \<times> registry" where
  "mark_run_started reg rid =
     (case reg rid of
        None \<Rightarrow> (None, reg)
      | Some state \<Rightarrow>
          (None, reg(rid \<mapsto> state\<lparr>run_status := running,
                      queue := queue state @ [Some (RunEvent rid running)]\<rparr>)))"

definition update_stage ::
  "registry \<Rightarrow> string \<Rightarrow> PipelineStage \<Rightarrow> string \<Rightarrow> string option \<Rightarrow> pyval
     \<Rightarrow> exn option \<times> registry" where
  "update_stage reg rid s st d p =
     (case reg rid of
        None \<Rightarrow> (None, reg)
      | Some state \<Rightarrow>
          (case make_snapshot s st d p of
             Inl e \<Rightarrow> (Some e, reg)
           | Inr snapshot \<Rightarrow>
               (let state1 = state\<lparr>stages := (stages state)(s \<mapsto> snapshot)\<rparr>
                in if snapshot_json_ok snapshot
                   then (None, reg(rid \<mapsto> state1\<lparr>queue := queue state1 @
                                       [Some (StageEvent rid snapshot)]\<rparr>))
                   else (Some NotSerializable, reg(rid \<mapsto> state1)))))"

definition mark_run_completed ::
  "registry \<Rightarrow> string \<Rightarrow> PipelineRunResponse \<Rightarrow> exn option \<times> registry" where
  "mark_run_completed reg rid response =
     (case reg rid of
        None \<Rightarrow> (None, reg)
      | Some state \<Rightarrow>
          (let state1 = state\<lparr>run_status := run_completed, outputs := resp_outputs response\<rparr>;
               state2 = state1\<lparr>queue := queue state1 @ [Some (RunEvent rid run_completed)]\<rparr>
           in if response_json_ok response
              then (None, reg(rid \<mapsto> state2\<lparr>queue := queue state2 @
                                  [Some (Complete rid response), None]\<rparr>))
              else (Some NotSerializable, reg(rid \<mapsto> state2))))"

definition mark_run_failed :: "registry \<Rightarrow> string \<Rightarrow> string \<Rightarrow> exn option \<times> registry" where
  "mark_run_failed reg rid message =
     (case reg rid of
        None \<Rightarrow> (None, reg)
      | Some state \<Rightarrow>
          (None, reg(rid \<mapsto> state\<lparr>run_status := error,
                      queue := queue state @
                        [Some (RunEvent rid error), Some (ErrorEvent rid message), None]\<rparr>)))"

text \<open>
  \<open>get_status\<close>: the response, or None for an unknown run, and the registry after
  the call.
\<close>

definition get_status ::
  "registry \<Rightarrow> string \<Rightarrow> PipelineRunStatusResponse option \<times> registry" where
  "get_status reg rid =
     (case reg rid of
        None \<Rightarrow> (None, reg)
      | Some state \<Rightarrow>
          (Some \<lparr>sr_run_id = rid, sr_run_name = run_name state, sr_status = run_status state,
                  sr_stages = stage_snapshots state, sr_outputs = outputs state\<rparr>, reg))"

definition get_queue :: "registry \<Rightarrow> string \<Rightarrow> event option list option" where
  "get_queue reg rid = (if rid \<in> dom reg then map_option queue (reg rid) else None)"


text \<open>
  The state manager over time. \<open>runs\<close> is the registry now. Two more fields record
  what has happened, for the properties that speak about it: \<open>past\<close> lists the
  registries that earlier operations left, newest first (an operation of the manager
  runs without a suspension point in it, so these are the states a status query can
  see), and \<open>invoked\<close> lists the stage executors that were invoked, each with what it
  returned or raised, oldest first. No operation reads either field.
\<close>

record manager =
  runs :: registry
  past :: "registry list"
  invoked :: "(PipelineStage \<times> (exn + pyval)) list"

definition call :: "(registry \<Rightarrow> 'a \<times> registry) \<Rightarrow> manager \<Rightarrow> 'a \<times> manager" where
  "call f w = (case f (runs w) of (r, reg') \<Rightarrow> (r, w\<lparr>runs := reg', past := runs w # past w\<rparr>))"

definition timeline :: "manager \<Rightarrow> registry list" where
  "timeline w = rev (runs w # past w)"

section \<open>Python built-ins used by the orchestrator\<close>

text \<open>Truth value of an object, as \<open>if x\<close> and \<open>not x\<close> test it.\<close>

fun truthy :: "pyval \<Rightarrow> bool" where
  "truthy VNone = False"
| "truthy (VBool b) = b"
| "truthy (VInt i) = (i \<noteq> 0)"
| "truthy (VFloat f) = (f \<noteq> 0)"
| "truthy (VStr s) = (s \<noteq> [])"
| "truthy (VList xs) = (xs \<noteq> [])"
| "truthy (VTuple xs) = (xs \<noteq> [])"
| "truthy (VDict kvs) = (kvs \<noteq> [])"
| "truthy (VData c fs) = True"

text \<open>\<open>d.get(key)\<close> and \<open>d.get(key, default)\<close> on a dictionary.\<close>

definition dict_get_default :: "pydict \<Rightarrow> string \<Rightarrow> pyval \<Rightarrow> pyval" where
  "dict_get_default d k dflt = (case map_of d k of None \<Rightarrow> dflt | Some v \<Rightarrow> v)"

definition dict_get :: "pydict \<Rightarrow> string \<Rightarrow> pyval" where
  "dict_get d k = dict_get_default d k VNone"

text \<open>\<open>x.get(key, default)\<close> on any object: only a dictionary has the method.\<close>

definition py_get :: "pyval \<Rightarrow> string \<Rightarrow> pyval \<Rightarrow> exn + pyval" where
  "py_get x k dflt =
     (case x of VDict d \<Rightarrow> Inr (dict_get_default d k dflt) | _ \<Rightarrow> Inl (AttributeError x ''get''))"

text \<open>\<open>x.name\<close>: a field of a dataclass instance.\<close>

definition py_getattr :: "pyval \<Rightarrow> string \<Rightarrow> exn + pyval" where
  "py_getattr x name =
     (case x of
        VData c fs \<Rightarrow> (case map_of fs name of None \<Rightarrow> Inl (AttributeError x name) | Some v \<Rightarrow> Inr v)
      | _ \<Rightarrow> Inl (AttributeError x name))"

text \<open>\<open>for item in x\<close>: a dictionary yields its keys, a string its characters.\<close>

definition py_iter :: "pyval \<Rightarrow> exn + pyval list" where
  "py_iter x =
     (case x of
        VList xs \<Rightarrow> Inr xs
      | VTuple xs \<Rightarrow> Inr xs
      | VDict kvs \<Rightarrow> Inr (map (\<lambda>kv. VStr (fst kv)) kvs)
      | VStr s \<Rightarrow> Inr (map (\<lambda>c. VStr [c]) s)
      | _ \<Rightarrow> Inl (NotIterable x))"

definition py_len :: "pyval \<Rightarrow> exn + nat" where
  "py_len x = (case py_iter x of Inl e \<Rightarrow> Inl e | Inr xs \<Rightarrow> Inr (length xs))"

text \<open>Sequencing of computations that may raise.\<close>

definition ebind :: "exn + 'a \<Rightarrow> ('a \<Rightarrow> exn + 'b) \<Rightarrow> exn + 'b" where
  "ebind m f = (case m of Inl e \<Rightarrow> Inl e | Inr x \<Rightarrow> f x)"

text \<open>Decimal text of a natural number, as an f-string prints a count.\<close>

function string_of_nat :: "nat \<Rightarrow> string" where
  "string_of_nat n =
     (if n < 10 then [char_of (48 + n)]
      else string_of_nat (n div 10) @ [char_of (48 + n mod 10)])"
  by pat_completeness auto
termination
  by (relation "measure id") auto

text \<open>\<open>dataclasses.asdict\<close>: dataclass instances become dictionaries, at any depth.\<close>

fun asdict_inner :: "pyval \<Rightarrow> pyval" where
  "asdict_inner (VData c fs) = VDict (map (\<lambda>kv. (fst kv, asdict_inner (snd kv))) fs)"
| "asdict_inner (VList xs) = VList (map asdict_inner xs)"
| "asdict_inner (VTuple xs) = VTuple (map asdict_inner xs)"
| "asdict_inner (VDict kvs) = VDict (map (\<lambda>kv. (fst kv, asdict_inner (snd kv))) kvs)"
| "asdict_inner v = v"

definition asdict :: "(string \<times> pyval) list \<Rightarrow> pydict" where
  "asdict fs = map (\<lambda>kv. (fst kv, asdict_inner (snd kv))) fs"

subsection \<open>Paths (pathlib, POSIX flavour)\<close>

text \<open>\<open>s.split(sep)\<close> for a one-character separator.\<close>

fun split_on :: "char \<Rightarrow> string \<Rightarrow> string list" where
  "split_on sep [] = [[]]"
| "split_on sep (c # cs) =
     (if c = sep then [] # split_on sep cs
      else (case split_on sep cs of w # ws \<Rightarrow> (c # w) # ws | [] \<Rightarrow> [[c]]))"

text \<open>
  A path is its root (\<open>/\<close>, \<open>//\<close> for exactly two leading slashes, or none) and its
  parts: the components between slashes, without the empty ones and the dots.
\<close>

definition path_root :: "string \<Rightarrow> string" where
  "path_root s =
     (if take 2 s = ''//'' \<and> take 3 s \<noteq> ''///'' then ''//''
      else if take 1 s = ''/'' then ''/'' else [])"

definition path_parts :: "string \<Rightarrow> string list" where
  "path_parts s = filter (\<lambda>p. p \<noteq> [] \<and> p \<noteq> ''.'') (split_on CHR ''/'' s)"

text \<open>
  \<open>Path(p).relative_to(base)\<close>: the parts of \<open>p\<close> below \<open>base\<close>, or None where
  Python raises ValueError because \<open>p\<close> is not under \<open>base\<close>.
\<close>

definition relative_to :: "string \<Rightarrow> string \<Rightarrow> string list option" where
  "relative_to p base =
     (if path_root p = path_root base
         \<and> take (length (path_parts base)) (path_parts p) = path_parts base
      then Some (drop (length (path_parts base)) (path_parts p))
      else None)"

fun join_parts :: "string list \<Rightarrow> string" where
  "join_parts [] = []"
| "join_parts [p] = p"
| "join_parts (p # q # ps) = p @ ''/'' @ join_parts (q # ps)"

definition as_posix :: "string list \<Rightarrow> string" where
  "as_posix ps = (if ps = [] then ''.'' else join_parts ps)"


section \<open>The orchestrator (services/pipeline\_runner.py)\<close>

text \<open>
  \<open>self\<close>: the setting the orchestrator reads and the six stage executors, each the
  closure \<open>_execute\<close> hands to \<open>_run_stage\<close>, as a function of the request and of
  the earlier results it captures; it returns a result or raises. With them, what the
  Python runtime supplies: \<open>str()\<close> of a value, the text of an exception raised by
  the runtime or a library, and the clock reading \<open>utcnow().isoformat()\<close>.
\<close>

record PipelineRunner =
  outputs_dir :: string
  ingest_executor :: "PipelineRunRequest \<Rightarrow> exn + pyval"
  narrative_executor :: "PipelineRunRequest \<Rightarrow> exn + pyval"
  voiceover_executor :: "pyval \<Rightarrow> PipelineRunRequest \<Rightarrow> exn + pyval"
  editing_executor :: "pyval \<Rightarrow> pyval \<Rightarrow> PipelineRunRequest \<Rightarrow> exn + pyval"
  packaging_executor :: "PipelineRunRequest \<Rightarrow> pyval \<Rightarrow> pyval \<Rightarrow> pyval \<Rightarrow> exn + pyval"
  analytics_executor :: "pyval \<Rightarrow> exn + pyval"
  py_str :: "pyval \<Rightarrow> string"
  lib_text :: "exn \<Rightarrow> string"
  utcnow_isoformat :: string

text \<open>\<open>str(exc)\<close>.\<close>

definition exc_str :: "PipelineRunner \<Rightarrow> exn \<Rightarrow> string" where
  "exc_str self e = (case e of Failure m \<Rightarrow> m | RuntimeError m \<Rightarrow> m | _ \<Rightarrow> lib_text self e)"

text \<open>A value inside an f-string: a string prints as itself.\<close>

definition format_value :: "PipelineRunner \<Rightarrow> pyval \<Rightarrow> string" where
  "format_value self v = (case v of VStr s \<Rightarrow> s | _ \<Rightarrow> py_str self v)"

text \<open>
  \<open>_public_asset_path\<close>: None for a falsy argument and for a path outside the output
  root (the ValueError of \<open>relative_to\<close> is caught); the TypeError of \<open>Path()\<close> on
  a value that is not a string is not caught.
\<close>

definition public_asset_path :: "PipelineRunner \<Rightarrow> pyval \<Rightarrow> exn + pyval" where
  "public_asset_path self path =
     (if \<not> truthy path then Inr VNone
      else (case path of
              VStr s \<Rightarrow>
                (case relative_to s (outputs_dir self) of
                   None \<Rightarrow> Inr VNone
                 | Some relative \<Rightarrow> Inr (VStr (''outputs/'' @ as_posix relative)))
            | _ \<Rightarrow> Inl (PathTypeError path)))"

text \<open>\<open>_rewrite_asset_path\<close>: \<open>public_path or value\<close>, on a string.\<close>

definition rewrite_asset_path :: "PipelineRunner \<Rightarrow> string \<Rightarrow> string" where
  "rewrite_asset_path self v =
     (case public_asset_path self (VStr v) of
        Inr (VStr public_path) \<Rightarrow> (if public_path \<noteq> [] then public_path else v)
      | _ \<Rightarrow> v)"

text \<open>
  \<open>_sanitize_payload\<close>. The dictionary branch first: one entry of the asset list
  comprehension, one iteration of the loop over \<open>payload.items()\<close>, the loop with
  its assignments \<open>sanitized[key] = ...\<close>.
\<close>

definition reduce_asset :: "pyval \<Rightarrow> pyval option" where
  "reduce_asset item =
     (case item of
        VDict d \<Rightarrow> Some (VDict [(''id'', dict_get d ''id''),
                                 (''local_path'', dict_get d ''local_path''),
                                 (''license'', dict_get d ''license'')])
      | _ \<Rightarrow> None)"

definition is_str_int_float :: "pyval \<Rightarrow> bool" where
  "is_str_int_float v =
     (case v of VStr s \<Rightarrow> True | VInt i \<Rightarrow> True | VBool b \<Rightarrow> True | VFloat f \<Rightarrow> True
      | _ \<Rightarrow> False)"

definition sanitize_entry :: "PipelineRunner \<Rightarrow> string \<Rightarrow> pyval \<Rightarrow> exn + pyval" where
  "sanitize_entry self key v =
     (if key = ''assets'' then
        (case py_iter v of
           Inl e \<Rightarrow> Inl e
         | Inr items \<Rightarrow> Inr (VList (List.map_filter reduce_asset items)))
      else if is_str_int_float v then
        (case v of VStr s \<Rightarrow> Inr (VStr (rewrite_asset_path self s)) | _ \<Rightarrow> Inr v)
      else Inr (VStr (py_str self v)))"

fun sanitize_items :: "PipelineRunner \<Rightarrow> pydict \<Rightarrow> pydict \<Rightarrow> exn + pydict" where
  "sanitize_items self [] sanitized = Inr sanitized"
| "sanitize_items self ((key, v) # rest) sanitized =
     (case sanitize_entry self key v of
        Inl e \<Rightarrow> Inl e
      | Inr v' \<Rightarrow> sanitize_items self rest (AList.update key v' sanitized))"

definition sanitize_dict :: "PipelineRunner \<Rightarrow> pydict \<Rightarrow> exn + pyval" where
  "sanitize_dict self d = ebind (sanitize_items self d []) (\<lambda>sanitized. Inr (VDict sanitized))"

fun sanitize_payload :: "PipelineRunner \<Rightarrow> pyval \<Rightarrow> exn + pyval"
  and sanitize_each :: "PipelineRunner \<Rightarrow> pyval list \<Rightarrow> exn + pyval list" where
  "sanitize_payload self (VData c fs) = sanitize_dict self (asdict fs)"
| "sanitize_payload self (VDict d) = sanitize_dict self d"
| "sanitize_payload self (VList xs) = ebind (sanitize_each self xs) (\<lambda>ys. Inr (VList ys))"
| "sanitize_payload self (VTuple xs) = ebind (sanitize_each self xs) (\<lambda>ys. Inr (VList ys))"
| "sanitize_payload self v = Inr v"
| "sanitize_each self [] = Inr []"
| "sanitize_each self (x # xs) =
     ebind (sanitize_payload self x) (\<lambda>y. ebind (sanitize_each self xs) (\<lambda>ys. Inr (y # ys)))"

text \<open>\<open>_format_ingest_detail\<close>.\<close>

definition count_placeholders :: "pyval list \<Rightarrow> nat" where
  "count_placeholders assets =
     length (filter (\<lambda>asset. case asset of VDict d \<Rightarrow> truthy (dict_get d ''placeholder'')
                                          | _ \<Rightarrow> False) assets)"

definition format_ingest_detail :: "pyval \<Rightarrow> exn + string" where
  "format_ingest_detail p =
     (let assets = (case p of VDict d \<Rightarrow> dict_get_default d ''assets'' (VList []) | _ \<Rightarrow> VList [])
      in ebind (py_len assets) (\<lambda>count.
         ebind (py_iter assets) (\<lambda>items.
           let placeholder_count = count_placeholders items
           in if placeholder_count \<noteq> 0
              then Inr (''Prepared '' @ string_of_nat count @ '' clips ('' @
                        string_of_nat placeholder_count @ '' placeholders generated).'')
              else Inr (''Prepared '' @ string_of_nat count @ '' curated clips.''))))"

text \<open>The detail builder of the voiceover stage.\<close>

definition voiceover_detail :: "PipelineRunner \<Rightarrow> pyval \<Rightarrow> exn + string" where
  "voiceover_detail self p =
     ebind (py_get p ''status'' (VStr ''unknown''))
       (\<lambda>v. Inr (''Voiceover status: '' @ format_value self v @ ''.''))"

text \<open>\<open>if run_id:\<close> holds for an identifier that is neither None nor empty.\<close>

definition tracked :: "string option \<Rightarrow> bool" where
  "tracked rid = (case rid of None \<Rightarrow> False | Some r \<Rightarrow> r \<noteq> [])"

definition payload_value :: "pydict option \<Rightarrow> pyval" where
  "payload_value p = (case p of None \<Rightarrow> VNone | Some d \<Rightarrow> VDict d)"

text \<open>
  \<open>_run_stage\<close>. The result is what the call returns or raises, the list
  \<open>snapshots\<close> after it, and the state manager after it. First the handler
  (\<open>except Exception as exc\<close>), then the guarded block (\<open>try\<close>), then the function.
\<close>

definition run_stage_except ::
  "PipelineRunner \<Rightarrow> PipelineStage \<Rightarrow> string option \<Rightarrow> exn \<Rightarrow> PipelineStageSnapshot list
     \<Rightarrow> manager \<Rightarrow> (exn + pyval) \<times> PipelineStageSnapshot list \<times> manager" where
  "run_stage_except self stg rid exc snapshots w =
     (let snapshot = \<lparr>stage = stg, status = ''error'', detail = Some (exc_str self exc),
                      payload = None\<rparr>;
          snapshots' = snapshots @ [snapshot];
          raised = RuntimeError (''Stage '' @ stage_value stg @ '' failed'')
      in if tracked rid
         then (case call (\<lambda>reg. update_stage reg (the rid) stg ''error''
                                   (Some (exc_str self exc)) VNone) w of
                 (Some e, w') \<Rightarrow> (Inl e, snapshots', w')
               | (None, w') \<Rightarrow> (Inl raised, snapshots', w'))
         else (Inl raised, snapshots', w))"

definition run_stage_try ::
  "PipelineRunner \<Rightarrow> PipelineStage \<Rightarrow> string option \<Rightarrow> (unit \<Rightarrow> exn + pyval)
     \<Rightarrow> (pyval \<Rightarrow> exn + string) \<Rightarrow> PipelineStageSnapshot list
     \<Rightarrow> manager \<Rightarrow> (exn + pyval) \<times> PipelineStageSnapshot list \<times> manager" where
  "run_stage_try self stg rid executor detail_builder snapshots w0 =
     (let w = w0\<lparr>invoked := invoked w0 @ [(stg, executor ())]\<rparr>
      in case executor () of
        Inl exc \<Rightarrow> run_stage_except self stg rid exc snapshots w
      | Inr result \<Rightarrow>
          (case detail_builder result of
             Inl exc \<Rightarrow> run_stage_except self stg rid exc snapshots w
           | Inr dtl \<Rightarrow>
               (case ebind (sanitize_payload self result) (make_snapshot stg ''done'' (Some dtl)) of
                  Inl exc \<Rightarrow> run_stage_except self stg rid exc snapshots w
                | Inr snapshot \<Rightarrow>
                    (let snapshots' = snapshots @ [snapshot]
                     in if tracked rid
                        then (case call (\<lambda>reg. update_stage reg (the rid) stg ''done''
                                                  (Some dtl) (payload_value (payload snapshot))) w of
                                (Some exc, w') \<Rightarrow> run_stage_except self stg rid exc snapshots' w'
                              | (None, w') \<Rightarrow> (Inr result, snapshots', w'))
                        else (Inr result, snapshots', w)))))"

definition run_stage ::
  "PipelineRunner \<Rightarrow> PipelineStage \<Rightarrow> PipelineStageSnapshot list \<Rightarrow> (unit \<Rightarrow> exn + pyval)
     \<Rightarrow> (pyval \<Rightarrow> exn + string) \<Rightarrow> string option
     \<Rightarrow> manager \<Rightarrow> (exn + pyval) \<times> PipelineStageSnapshot list \<times> manager" where
  "run_stage self stg snapshots executor detail_builder rid w =
     (if tracked rid
      then (case call (\<lambda>reg. update_stage reg (the rid) stg ''running'' None VNone) w of
              (Some e, w') \<Rightarrow> (Inl e, snapshots, w')
            | (None, w') \<Rightarrow> run_stage_try self stg rid executor detail_builder snapshots w')
      else run_stage_try self stg rid executor detail_builder snapshots w)"


text \<open>\<open>AnalyticsPayload.as_dict\<close>; an object of another class has no such method.\<close>

definition analytics_as_dict :: "pyval \<Rightarrow> exn + pyval" where
  "analytics_as_dict x =
     (case x of
        VData c fs \<Rightarrow>
          (if c = ''AnalyticsPayload''
           then ebind (py_getattr x ''expected_ctr'') (\<lambda>ctr.
                ebind (py_getattr x ''retention_score'') (\<lambda>ret.
                ebind (py_getattr x ''narrative_complexity'') (\<lambda>cpx.
                  Inr (VDict [(''expected_ctr'', ctr), (''retention_score'', ret),
                              (''narrative_complexity'', cpx)]))))
           else Inl (AttributeError x ''as_dict''))
      | _ \<Rightarrow> Inl (AttributeError x ''as_dict''))"

text \<open>The \<open>outputs\<close> dictionary of \<open>_execute\<close>, evaluated left to right.\<close>

definition platform_outputs ::
  "PipelineRunner \<Rightarrow> pyval \<Rightarrow> pyval \<Rightarrow> string \<Rightarrow> string \<Rightarrow> string \<Rightarrow> exn + pyval" where
  "platform_outputs self video_payload narrative_payload video_key caption_attr hashtags_attr =
     ebind (py_get video_payload video_key VNone) (\<lambda>video.
     ebind (public_asset_path self video) (\<lambda>video_path.
     ebind (py_getattr narrative_payload caption_attr) (\<lambda>caption.
     ebind (py_getattr narrative_payload hashtags_attr) (\<lambda>hashtags.
     ebind (py_getattr narrative_payload ''cta'') (\<lambda>cta.
       Inr (VDict [(''video_path'', video_path), (''caption'', caption),
                   (''hashtags'', hashtags), (''cta'', cta)]))))))"

definition build_outputs ::
  "PipelineRunner \<Rightarrow> pyval \<Rightarrow> pyval \<Rightarrow> pyval \<Rightarrow> pyval \<Rightarrow> exn + pydict" where
  "build_outputs self video_payload narrative_payload packaging_payload analytics_payload =
     ebind (platform_outputs self video_payload narrative_payload
              ''instagram_video'' ''instagram_caption'' ''instagram_hashtags'') (\<lambda>ig.
     ebind (platform_outputs self video_payload narrative_payload
              ''tiktok_video'' ''tiktok_caption'' ''tiktok_hashtags'') (\<lambda>tt.
     ebind (analytics_as_dict analytics_payload) (\<lambda>an.
       Inr [(''instagram'', ig), (''tiktok'', tt), (''metadata'', packaging_payload),
            (''analytics'', an)])))"

text \<open>
  \<open>_execute\<close>, after the six stages: the completion snapshot, its publication, the
  outputs, the response.
\<close>

definition finish_run ::
  "PipelineRunner \<Rightarrow> PipelineRunRequest \<Rightarrow> string option \<Rightarrow> pyval \<Rightarrow> pyval \<Rightarrow> pyval \<Rightarrow> pyval
     \<Rightarrow> PipelineStageSnapshot list \<Rightarrow> manager \<Rightarrow> (exn + PipelineRunResponse) \<times> manager" where
  "finish_run self req rid video_payload narrative_payload packaging_payload analytics_payload
     snapshots w =
     (let dtl = ''Run finished at '' @ utcnow_isoformat self @ ''Z'';
          completion_snapshot = \<lparr>stage = PipelineStage.completed, status = ''done'',
                                 detail = Some dtl, payload = None\<rparr>;
          snapshots' = snapshots @ [completion_snapshot];
          (r, w') = (if tracked rid
                     then call (\<lambda>reg. update_stage reg (the rid) PipelineStage.completed ''done''
                                         (Some dtl) VNone) w
                     else (None, w))
      in (case r of
            Some e \<Rightarrow> (Inl e, w')
          | None \<Rightarrow>
              (ebind (build_outputs self video_payload narrative_payload packaging_payload
                        analytics_payload)
                 (\<lambda>outs. Inr \<lparr>resp_run_name = req_run_name req, resp_stages = snapshots',
                               resp_outputs = outs\<rparr>), w')))"

text \<open>\<open>_execute\<close>: the six stages in the order written, each stopping the run when it raises.\<close>

definition execute ::
  "PipelineRunner \<Rightarrow> PipelineRunRequest \<Rightarrow> string option \<Rightarrow> manager
     \<Rightarrow> (exn + PipelineRunResponse) \<times> manager" where
  "execute self req rid w =
     (case run_stage self ingest [] (\<lambda>_. ingest_executor self req) format_ingest_detail rid w of
        (Inl e, sn1, w1) \<Rightarrow> (Inl e, w1)
      | (Inr assets_payload, sn1, w1) \<Rightarrow>
     (case run_stage self narrative sn1 (\<lambda>_. narrative_executor self req)
             (\<lambda>p. Inr ''Generated master script and dual-platform captions.'') rid w1 of
        (Inl e, sn2, w2) \<Rightarrow> (Inl e, w2)
      | (Inr narrative_payload, sn2, w2) \<Rightarrow>
     (case run_stage self voiceover sn2 (\<lambda>_. voiceover_executor self narrative_payload req)
             (voiceover_detail self) rid w2 of
        (Inl e, sn3, w3) \<Rightarrow> (Inl e, w3)
      | (Inr voiceover_payload, sn3, w3) \<Rightarrow>
     (case run_stage self editing sn3
             (\<lambda>_. editing_executor self assets_payload voiceover_payload req)
             (\<lambda>p. Inr ''Rendered Instagram and TikTok masters.'') rid w3 of
        (Inl e, sn4, w4) \<Rightarrow> (Inl e, w4)
      | (Inr video_payload, sn4, w4) \<Rightarrow>
     (case run_stage self packaging sn4
             (\<lambda>_. packaging_executor self req narrative_payload assets_payload video_payload)
             (\<lambda>p. Inr ''Packaged deliverables into metadata bundle.'') rid w4 of
        (Inl e, sn5, w5) \<Rightarrow> (Inl e, w5)
      | (Inr packaging_payload, sn5, w5) \<Rightarrow>
     (case run_stage self analytics sn5 (\<lambda>_. analytics_executor self narrative_payload)
             (\<lambda>p. Inr ''Computed engagement heuristics.'') rid w5 of
        (Inl e, sn6, w6) \<Rightarrow> (Inl e, w6)
      | (Inr analytics_payload, sn6, w6) \<Rightarrow>
          finish_run self req rid video_payload narrative_payload packaging_payload
            analytics_payload sn6 w6))))))"

text \<open>
  \<open>execute_with_tracking\<close>: the handler \<open>except Exception as exc\<close> first, then the
  function. The result is the exception that leaves the function, if any.
\<close>

definition tracking_except ::
  "PipelineRunner \<Rightarrow> string \<Rightarrow> exn \<Rightarrow> manager \<Rightarrow> exn option \<times> manager" where
  "tracking_except self rid exc w = call (\<lambda>reg. mark_run_failed reg rid (exc_str self exc)) w"

definition execute_with_tracking ::
  "PipelineRunner \<Rightarrow> string \<Rightarrow> PipelineRunRequest \<Rightarrow> manager \<Rightarrow> exn option \<times> manager" where
  "execute_with_tracking self rid req w =
     (case call (\<lambda>reg. mark_run_started reg rid) w of
        (Some exc, w1) \<Rightarrow> tracking_except self rid exc w1
      | (None, w1) \<Rightarrow>
          (case execute self req (Some rid) w1 of
             (Inl exc, w2) \<Rightarrow> tracking_except self rid exc w2
           | (Inr response, w2) \<Rightarrow>
               (case call (\<lambda>reg. mark_run_completed reg rid response) w2 of
                  (Some exc, w3) \<Rightarrow> tracking_except self rid exc w3
                | (None, w3) \<Rightarrow> (None, w3))))"

text \<open>
  The endpoint \<open>trigger_pipeline_run\<close> (api/v1/pipeline.py): create the run, then run
  \<open>execute_with_tracking\<close> on it as a background task. \<open>rid\<close> is the identifier
  \<open>create_run\<close> draws. What the server does in between addresses other runs or only
  reads this one, so the two steps follow each other here.
\<close>

definition trigger_pipeline_run ::
  "PipelineRunner \<Rightarrow> string \<Rightarrow> PipelineRunRequest \<Rightarrow> manager \<Rightarrow> exn option \<times> manager" where
  "trigger_pipeline_run self rid req w =
     (case call (\<lambda>reg. create_run reg rid (req_run_name req) req) w of
        (state, w0) \<Rightarrow> execute_with_tracking self (run_id state) req w0)"


section \<open>Notions the properties are stated with\<close>

text \<open>Position of a stage in the declared order.\<close>

fun stage_pos :: "PipelineStage \<Rightarrow> nat" where
  "stage_pos ingest = 0"
| "stage_pos narrative = 1"
| "stage_pos voiceover = 2"
| "stage_pos editing = 3"
| "stage_pos packaging = 4"
| "stage_pos analytics = 5"
| "stage_pos PipelineStage.completed = 6"

text \<open>The stages that have an executor, in the order \<open>_execute\<close> runs them.\<close>

definition executor_stages :: "PipelineStage list" where
  "executor_stages = [ingest, narrative, voiceover, editing, packaging, analytics]"

text \<open>Rank of a run status along queued, running, then completed or error.\<close>

fun status_rank :: "PipelineRunStatus \<Rightarrow> nat" where
  "status_rank queued = 0"
| "status_rank running = 1"
| "status_rank run_completed = 2"
| "status_rank error = 2"

definition terminal_status :: "PipelineRunStatus \<Rightarrow> bool" where
  "terminal_status s = (s = run_completed \<or> s = error)"

text \<open>What a status query shows of run \<open>rid\<close> in a registry.\<close>

definition status_in :: "string \<Rightarrow> registry \<Rightarrow> PipelineRunStatus option" where
  "status_in rid reg = map_option sr_status (fst (get_status reg rid))"

definition outputs_in :: "string \<Rightarrow> registry \<Rightarrow> pydict option" where
  "outputs_in rid reg = map_option sr_outputs (fst (get_status reg rid))"

definition queue_in :: "string \<Rightarrow> registry \<Rightarrow> event option list" where
  "queue_in rid reg = (case reg rid of None \<Rightarrow> [] | Some state \<Rightarrow> queue state)"

text \<open>
  The registries a status query can see from the moment \<open>create_run\<close> has returned
  until the run that \<open>trigger_pipeline_run\<close> starts is over, oldest first.
\<close>

definition run_history ::
  "PipelineRunner \<Rightarrow> string \<Rightarrow> PipelineRunRequest \<Rightarrow> manager \<Rightarrow> registry list" where
  "run_history self rid req w =
     drop (length (timeline w)) (timeline (snd (trigger_pipeline_run self rid req w)))"

text \<open>The executors invoked by that run, oldest first.\<close>

definition run_invoked ::
  "PipelineRunner \<Rightarrow> string \<Rightarrow> PipelineRunRequest \<Rightarrow> manager
     \<Rightarrow> (PipelineStage \<times> (exn + pyval)) list" where
  "run_invoked self rid req w =
     drop (length (invoked w)) (invoked (snd (trigger_pipeline_run self rid req w)))"

text \<open>The queue of the run when it is over.\<close>

definition final_queue ::
  "PipelineRunner \<Rightarrow> string \<Rightarrow> PipelineRunRequest \<Rightarrow> manager \<Rightarrow> event option list" where
  "final_queue self rid req w = queue_in rid (runs (snd (trigger_pipeline_run self rid req w)))"

text \<open>Kinds of queue items.\<close>

fun is_terminal_event :: "event option \<Rightarrow> bool" where
  "is_terminal_event (Some (Complete r resp)) = True"
| "is_terminal_event (Some (ErrorEvent r m)) = True"
| "is_terminal_event x = False"

fun is_stage_event :: "event option \<Rightarrow> bool" where
  "is_stage_event (Some (StageEvent r sn)) = True"
| "is_stage_event x = False"

fun is_init_event :: "event option \<Rightarrow> bool" where
  "is_init_event (Some (Init r n sns)) = True"
| "is_init_event x = False"

text \<open>The stage events of a queue, each as its stage and status, in queue order.\<close>

fun stage_trace :: "event option list \<Rightarrow> (PipelineStage \<times> string) list" where
  "stage_trace [] = []"
| "stage_trace (Some (StageEvent r sn) # q) = (stage sn, status sn) # stage_trace q"
| "stage_trace (x # q) = stage_trace q"

text \<open>
  The stage traces a run can leave: the first \<open>k\<close> executor stages run and done, then
  either the completion marker (all six done) or stage \<open>k\<close> run and failed.
\<close>

definition done_trace :: "nat \<Rightarrow> (PipelineStage \<times> string) list" where
  "done_trace k = concat (map (\<lambda>s. [(s, ''running''), (s, ''done'')]) (take k executor_stages))"

definition full_trace :: "(PipelineStage \<times> string) list" where
  "full_trace = done_trace 6 @ [(PipelineStage.completed, ''done'')]"

definition failed_trace :: "nat \<Rightarrow> (PipelineStage \<times> string) list" where
  "failed_trace k =
     done_trace k @ [(executor_stages ! k, ''running''), (executor_stages ! k, ''error'')]"

text \<open>
  Any sequence of calls of the registry's operations, for the properties that hold
  whatever the caller does.
\<close>

datatype registry_call =
    CreateRun string string PipelineRunRequest
  | MarkRunStarted string
  | UpdateStage string PipelineStage string "string option" pyval
  | MarkRunCompleted string PipelineRunResponse
  | MarkRunFailed string string

fun do_call :: "registry \<Rightarrow> registry_call \<Rightarrow> registry" where
  "do_call reg (CreateRun rid rname req) = snd (create_run reg rid rname req)"
| "do_call reg (MarkRunStarted rid) = snd (mark_run_started reg rid)"
| "do_call reg (UpdateStage rid s st d p) = snd (update_stage reg rid s st d p)"
| "do_call reg (MarkRunCompleted rid resp) = snd (mark_run_completed reg rid resp)"
| "do_call reg (MarkRunFailed rid m) = snd (mark_run_failed reg rid m)"

definition after_calls :: "registry_call list \<Rightarrow> registry" where
  "after_calls cs = foldl do_call Map.empty cs"

text \<open>The run a call addresses.\<close>

fun call_run :: "registry_call \<Rightarrow> string" where
  "call_run (CreateRun rid rname req) = rid"
| "call_run (MarkRunStarted rid) = rid"
| "call_run (UpdateStage rid s st d p) = rid"
| "call_run (MarkRunCompleted rid resp) = rid"
| "call_run (MarkRunFailed rid m) = rid"


text \<open>An example runner: every executor returns a small result of the shape the services give.\<close>

definition demo_narrative :: pyval where
  "demo_narrative =
     VData ''NarrativePayload''
       [(''master_script'', VStr ''s''), (''instagram_caption'', VStr ''c''),
        (''instagram_hashtags'', VList []), (''tiktok_caption'', VStr ''t''),
        (''tiktok_hashtags'', VList []), (''cta'', VStr ''go'')]"

definition demo_runner :: PipelineRunner where
  "demo_runner =
     \<lparr>outputs_dir = ''/srv/outputs'',
      ingest_executor = (\<lambda>req. Inr (VDict [(''assets'', VList [])])),
      narrative_executor = (\<lambda>req. Inr demo_narrative),
      voiceover_executor = (\<lambda>n req. Inr (VDict [(''status'', VStr ''ok'')])),
      editing_executor = (\<lambda>a v req. Inr (VDict [(''instagram_video'', VStr ''/srv/outputs/d/ig.mp4'')])),
      packaging_executor = (\<lambda>req n a v. Inr (VDict [])),
      analytics_executor = (\<lambda>n. Inr (VData ''AnalyticsPayload''
         [(''expected_ctr'', VInt 0), (''retention_score'', VInt 0),
          (''narrative_complexity'', VInt 0)])),
      py_str = (\<lambda>v. ''?''),
      lib_text = (\<lambda>e. ''?''),
      utcnow_isoformat = ''2025-01-01T00:00:00''\<rparr>"

text \<open>The same runner with an editing executor that raises.\<close>

definition failing_runner :: PipelineRunner where
  "failing_runner = demo_runner\<lparr>editing_executor := (\<lambda>a v req. Inl (Failure ''no clips''))\<rparr>"

definition demo_request :: PipelineRunRequest where
  "demo_request = \<lparr>req_run_name = ''demo'', platforms = [instagram, tiktok],
                    stock_keywords = [''k1'', ''k2''], req_notes = None\<rparr>"

definition fresh_manager :: manager where
  "fresh_manager = \<lparr>runs = Map.empty, past = [], invoked = []\<rparr>"

text \<open>Calls that address a second run.\<close>

definition other_run_calls :: "registry_call list" where
  "other_run_calls =
     [CreateRun ''r2'' ''other'' demo_request, MarkRunStarted ''r2'',
      UpdateStage ''r2'' ingest ''running'' None VNone, MarkRunFailed ''r2'' ''stopped'']"

text \<open>Every declared stage has a snapshot, filed under its own stage.\<close>

definition stages_complete :: "RunState \<Rightarrow> bool" where
  "stages_complete state =
     list_all (\<lambda>s. case stages state s of None \<Rightarrow> False | Some sn \<Rightarrow> stage sn = s)
       PIPELINE_STAGE_ORDER"

definition registry_complete :: "registry \<Rightarrow> bool" where
  "registry_complete reg = (\<forall>rid state. reg rid = Some state \<longrightarrow> stages_complete state)"

text \<open>A registry holding one freshly created run.\<close>

definition demo_registry :: registry where
  "demo_registry = snd (create_run Map.empty ''r1'' ''demo'' demo_request)"

text \<open>
  The sanitisation rule in the words of the specification, for one entry of a
  dictionary payload: what lies under the output root, its public form, an asset entry
  reduced to its three keys, the dictionaries among the items of a list, and the value
  the rule asks for.
\<close>

definition under_output_root :: "PipelineRunner \<Rightarrow> string \<Rightarrow> bool" where
  "under_output_root self s = (s \<noteq> [] \<and> relative_to s (outputs_dir self) \<noteq> None)"

definition public_form :: "PipelineRunner \<Rightarrow> string \<Rightarrow> string" where
  "public_form self s = ''outputs/'' @ as_posix (the (relative_to s (outputs_dir self)))"

definition reduced_entry :: "pydict \<Rightarrow> pyval" where
  "reduced_entry e = VDict [(''id'', dict_get e ''id''), (''local_path'', dict_get e ''local_path''),
                            (''license'', dict_get e ''license'')]"

fun dict_items :: "pyval list \<Rightarrow> pydict list" where
  "dict_items [] = []"
| "dict_items (VDict e # xs) = e # dict_items xs"
| "dict_items (x # xs) = dict_items xs"

definition spec_sanitize_value :: "PipelineRunner \<Rightarrow> string \<Rightarrow> pyval \<Rightarrow> pyval" where
  "spec_sanitize_value self k v =
     (if k = ''assets'' then
        (case py_iter v of Inr items \<Rightarrow> VList (map reduced_entry (dict_items items)) | Inl e \<Rightarrow> v)
      else (case v of
              VStr s \<Rightarrow> if under_output_root self s then VStr (public_form self s) else VStr s
            | VInt i \<Rightarrow> v
            | VFloat f \<Rightarrow> v
            | VBool b \<Rightarrow> v
            | _ \<Rightarrow> VStr (py_str self v)))"

text \<open>The value under the key \<open>assets\<close>, if there is one, can be iterated.\<close>

definition assets_iterable :: "pydict \<Rightarrow> bool" where
  "assets_iterable d = list_all (\<lambda>kv. fst kv = ''assets'' \<longrightarrow> \<not> isl (py_iter (snd kv))) d"


text \<open>An ingest payload of the shape \<open>prepare_assets\<close> returns.\<close>

definition demo_ingest_payload :: pydict where
  "demo_ingest_payload =
     [(''assets'', VList [VDict [(''id'', VStr ''a1''), (''local_path'', VStr ''/srv/assets/a1.mp4''),
                                 (''keywords'', VList [VStr ''stem'']), (''license'', VStr ''cc0''),
                                 (''placeholder'', VBool False)],
                          VInt 4]),
      (''requested_keywords'', VList [VStr ''stem'']),
      (''assets_dir'', VStr ''/srv/outputs/demo//clips/''),
      (''count'', VInt 1),
      (''note'', VStr ''/srv/elsewhere'')]"

section \<open>Notions the lifecycle properties are stated with\<close>

text \<open>The status and the outputs a status query shows of a run.\<close>

definition view :: "string \<Rightarrow> registry \<Rightarrow> PipelineRunStatus option \<times> pydict option" where
  "view rid reg = (status_in rid reg, outputs_in rid reg)"

text \<open>Rank of the status a query shows; 0 for a run the registry does not hold.\<close>

definition rank_in :: "string \<Rightarrow> registry \<Rightarrow> nat" where
  "rank_in rid reg = (case status_in rid reg of None \<Rightarrow> 0 | Some s \<Rightarrow> status_rank s)"

text \<open>A status that is neither completed nor error.\<close>

definition not_terminal :: "PipelineRunStatus option \<Rightarrow> bool" where
  "not_terminal s = (s = Some queued \<or> s = Some running)"

text \<open>Along successive views of a run, the outputs differ from one view to the next only
  when the next view shows the status completed.\<close>

fun outputs_change_only_on_completion ::
  "(PipelineRunStatus option \<times> pydict option) list \<Rightarrow> bool" where
  "outputs_change_only_on_completion (a # b # rest) =
     ((snd a = snd b \<or> fst b = Some run_completed) \<and> outputs_change_only_on_completion (b # rest))"
| "outputs_change_only_on_completion vs = True"

text \<open>In a stage trace, every \<open>running\<close> entry is directly followed by \<open>done\<close> or
  \<open>error\<close> of the same stage.\<close>

fun running_resolved :: "(PipelineStage \<times> string) list \<Rightarrow> bool" where
  "running_resolved [] = True"
| "running_resolved [(s, x)] = (x \<noteq> ''running'')"
| "running_resolved ((s, x) # (s', x') # rest) =
     ((x = ''running'' \<longrightarrow> s' = s \<and> (x' = ''done'' \<or> x' = ''error''))
      \<and> running_resolved ((s', x') # rest))"

section \<open>Notions used in the proofs\<close>

text \<open>The registry \<open>reg0\<close> in which run \<open>rid\<close>, from state \<open>st0\<close>, has the stage map
  \<open>S\<close> and has enqueued the stage events of the snapshots \<open>evs\<close>.\<close>

definition progress :: "registry \<Rightarrow> string \<Rightarrow> RunState \<Rightarrow> (PipelineStage \<rightharpoonup> PipelineStageSnapshot)
    \<Rightarrow> PipelineStageSnapshot list \<Rightarrow> registry" where
  "progress reg0 rid st0 S evs =
     reg0(rid \<mapsto> st0\<lparr>stages := S, queue := queue st0 @ map (\<lambda>sn. Some (StageEvent rid sn)) evs\<rparr>)"

text \<open>A registry that \<open>progress\<close> describes for an initial part of \<open>evs\<close>.\<close>

definition steady :: "registry \<Rightarrow> string \<Rightarrow> RunState \<Rightarrow> PipelineStageSnapshot list
    \<Rightarrow> registry \<Rightarrow> bool" where
  "steady reg0 rid st0 evs reg =
     (\<exists>S evs' rest. evs = evs' @ rest \<and> reg = progress reg0 rid st0 S evs')"

text \<open>Manager \<open>w\<close> is reached from \<open>w0\<close> by stage updates of run \<open>rid\<close> only: its
  registry, the registries passed through (\<open>ns\<close>) and the executors invoked (\<open>invs\<close>).\<close>

definition reaches :: "manager \<Rightarrow> string \<Rightarrow> RunState \<Rightarrow> manager
    \<Rightarrow> (PipelineStage \<rightharpoonup> PipelineStageSnapshot) \<Rightarrow> PipelineStageSnapshot list
    \<Rightarrow> registry list \<Rightarrow> (PipelineStage \<times> (exn + pyval)) list \<Rightarrow> bool" where
  "reaches w0 rid st0 w S evs ns invs =
     (runs w = progress (runs w0) rid st0 S evs
      \<and> timeline w = timeline w0 @ ns \<and> list_all (steady (runs w0) rid st0 evs) ns
      \<and> invoked w = invoked w0 @ invs)"

text \<open>The snapshot the handler of \<open>_run_stage\<close> builds.\<close>

definition error_snapshot :: "PipelineRunner \<Rightarrow> PipelineStage \<Rightarrow> exn \<Rightarrow> PipelineStageSnapshot" where
  "error_snapshot self s exc =
     \<lparr>stage = s, status = ''error'', detail = Some (exc_str self exc), payload = None\<rparr>"

text \<open>The snapshot \<open>_run_stage\<close> publishes before it invokes the executor.\<close>

definition running_snapshot :: "PipelineStage \<Rightarrow> PipelineStageSnapshot" where
  "running_snapshot s = \<lparr>stage = s, status = ''running'', detail = None, payload = None\<rparr>"

text \<open>The exception \<open>_run_stage\<close> raises.\<close>

definition stage_failed :: "PipelineStage \<Rightarrow> exn" where
  "stage_failed s = RuntimeError (''Stage '' @ stage_value s @ '' failed'')"

text \<open>How one call of \<open>_run_stage\<close> ends: it returns what the executor returned and the
  last snapshot is \<open>done\<close>, or it raises \<open>stage_failed\<close> and the last snapshot is the
  error snapshot, of the executor's exception when the executor raised.\<close>

definition stage_outcome :: "PipelineRunner \<Rightarrow> PipelineStage \<Rightarrow> (exn + pyval) \<Rightarrow> (exn + pyval)
    \<Rightarrow> PipelineStageSnapshot \<Rightarrow> bool" where
  "stage_outcome self s out res b =
     (stage b = s \<and>
      ((\<exists>v. res = Inr v \<and> out = Inr v \<and> status b = ''done'')
       \<or> (res = Inl (stage_failed s)
           \<and> (\<exists>exc. b = error_snapshot self s exc \<and> (\<forall>e. out = Inl e \<longrightarrow> exc = e)))))"

text \<open>Stage and status of each snapshot.\<close>

definition trace_of :: "PipelineStageSnapshot list \<Rightarrow> (PipelineStage \<times> string) list" where
  "trace_of evs = map (\<lambda>sn. (stage sn, status sn)) evs"

text \<open>An executor invocation that returned.\<close>

definition returned :: "(PipelineStage \<times> (exn + pyval)) \<Rightarrow> bool" where
  "returned i = (\<not> isl (snd i))"

text \<open>The first \<open>k\<close> executor stages have run and succeeded.\<close>

definition after_ok :: "manager \<Rightarrow> string \<Rightarrow> RunState \<Rightarrow> nat \<Rightarrow> manager \<Rightarrow> bool" where
  "after_ok w0 rid st0 k w =
     (\<exists>S evs ns invs. reaches w0 rid st0 w S evs ns invs \<and> trace_of evs = done_trace k
        \<and> map fst invs = take k executor_stages \<and> list_all returned invs)"

text \<open>How the stage part of \<open>_execute\<close> ends: all six stages done and the completion
  marker published, or stage \<open>k\<close> failed and nothing after it ran.\<close>

definition stages_result :: "PipelineRunner \<Rightarrow> (PipelineStage \<rightharpoonup> PipelineStageSnapshot)
    \<Rightarrow> PipelineStageSnapshot list \<Rightarrow> (PipelineStage \<times> (exn + pyval)) list
    \<Rightarrow> (exn + PipelineRunResponse) \<Rightarrow> bool" where
  "stages_result self S evs invs res =
     ((trace_of evs = full_trace \<and> map fst invs = executor_stages \<and> list_all returned invs)
      \<or> (\<exists>k exc. k < 6 \<and> trace_of evs = failed_trace k
            \<and> map fst invs = take (Suc k) executor_stages \<and> list_all returned (butlast invs)
            \<and> res = Inl (stage_failed (executor_stages ! k))
            \<and> S (executor_stages ! k) = Some (error_snapshot self (executor_stages ! k) exc)
            \<and> (\<forall>e. snd (last invs) = Inl e \<longrightarrow> exc = e)))"

text \<open>What \<open>_execute\<close> leaves behind.\<close>

definition run_summary :: "PipelineRunner \<Rightarrow> manager \<Rightarrow> string \<Rightarrow> RunState
    \<Rightarrow> (exn + PipelineRunResponse) \<times> manager \<Rightarrow> bool" where
  "run_summary self w0 rid st0 X =
     (\<exists>S evs ns invs. reaches w0 rid st0 (snd X) S evs ns invs \<and> stages_result self S evs invs (fst X))"

text \<open>The items \<open>mark_run_failed\<close> enqueues.\<close>

definition failure_events :: "string \<Rightarrow> string \<Rightarrow> event option list" where
  "failure_events rid m = [Some (RunEvent rid error), Some (ErrorEvent rid m), None]"

text \<open>The run state after \<open>mark_run_started\<close>.\<close>

definition started_state :: "string \<Rightarrow> RunState \<Rightarrow> RunState" where
  "started_state rid st = st\<lparr>run_status := running, queue := queue st @ [Some (RunEvent rid running)]\<rparr>"

text \<open>The run state after the stage updates of \<open>_execute\<close>.\<close>

definition staged_state :: "string \<Rightarrow> RunState \<Rightarrow> (PipelineStage \<rightharpoonup> PipelineStageSnapshot)
    \<Rightarrow> PipelineStageSnapshot list \<Rightarrow> RunState" where
  "staged_state rid st1 S evs =
     st1\<lparr>stages := S, queue := queue st1 @ map (\<lambda>sn. Some (StageEvent rid sn)) evs\<rparr>"

text \<open>How \<open>execute_with_tracking\<close> ends after \<open>_execute\<close>: the registries it passes
  through (\<open>fin\<close>), the items it enqueues (\<open>cl\<close>) and the final run state.\<close>

definition run_ending :: "PipelineRunner \<Rightarrow> string \<Rightarrow> registry \<Rightarrow> RunState
    \<Rightarrow> (exn + PipelineRunResponse) \<Rightarrow> registry list \<Rightarrow> event option list \<Rightarrow> RunState \<Rightarrow> bool" where
  "run_ending self rid reg stF res fin cl stE =
     (case res of
        Inl exc \<Rightarrow>
          cl = failure_events rid (exc_str self exc)
          \<and> stE = stF\<lparr>run_status := error, queue := queue stF @ cl\<rparr>
          \<and> fin = [reg(rid \<mapsto> stE)]
      | Inr resp \<Rightarrow>
          (if response_json_ok resp
           then cl = [Some (RunEvent rid run_completed), Some (Complete rid resp), None]
                \<and> stE = stF\<lparr>run_status := run_completed, outputs := resp_outputs resp,
                             queue := queue stF @ cl\<rparr>
                \<and> fin = [reg(rid \<mapsto> stE)]
           else cl = Some (RunEvent rid run_completed)
                       # failure_events rid (exc_str self NotSerializable)
                \<and> stE = stF\<lparr>run_status := error, outputs := resp_outputs resp,
                             queue := queue stF @ cl\<rparr>
                \<and> fin = [reg(rid \<mapsto> stF\<lparr>run_status := run_completed,
                                          outputs := resp_outputs resp,
                                          queue := queue stF @ [Some (RunEvent rid run_completed)]\<rparr>),
                          reg(rid \<mapsto> stE)]))"

text \<open>What \<open>execute_with_tracking\<close> leaves behind.\<close>

definition tracking_summary :: "PipelineRunner \<Rightarrow> string \<Rightarrow> manager \<Rightarrow> RunState
    \<Rightarrow> exn option \<times> manager \<Rightarrow> bool" where
  "tracking_summary self rid w st X =
     (\<exists>S evs ns invs res fin cl stE.
        fst X = None
        \<and> runs (snd X) = (runs w)(rid \<mapsto> stE)
        \<and> timeline (snd X) = timeline w @ (runs w)(rid \<mapsto> started_state rid st) # ns @ fin
        \<and> list_all (steady (runs w) rid (started_state rid st) evs) ns
        \<and> invoked (snd X) = invoked w @ invs
        \<and> stages_result self S evs invs res
        \<and> run_ending self rid (runs w) (staged_state rid (started_state rid st) S evs) res fin cl stE)"

text \<open>The run state \<open>create_run\<close> builds.\<close>

definition created_state :: "string \<Rightarrow> PipelineRunRequest \<Rightarrow> RunState" where
  "created_state rid req = fst (create_run Map.empty rid (req_run_name req) req)"

text \<open>What \<open>trigger_pipeline_run\<close> leaves behind.\<close>

definition lifecycle :: "PipelineRunner \<Rightarrow> string \<Rightarrow> PipelineRunRequest \<Rightarrow> manager
    \<Rightarrow> (PipelineStage \<rightharpoonup> PipelineStageSnapshot) \<Rightarrow> PipelineStageSnapshot list \<Rightarrow> registry list
    \<Rightarrow> (exn + PipelineRunResponse) \<Rightarrow> registry list \<Rightarrow> event option list \<Rightarrow> RunState \<Rightarrow> bool" where
  "lifecycle self rid req w S evs ns res fin cl stE =
     (fst (trigger_pipeline_run self rid req w) = None
      \<and> runs (snd (trigger_pipeline_run self rid req w)) = (runs w)(rid \<mapsto> stE)
      \<and> run_history self rid req w =
          (runs w)(rid \<mapsto> created_state rid req)
          # (runs w)(rid \<mapsto> started_state rid (created_state rid req)) # ns @ fin
      \<and> list_all (steady (runs w) rid (started_state rid (created_state rid req)) evs) ns
      \<and> stages_result self S evs (run_invoked self rid req w) res
      \<and> run_ending self rid (runs w)
            (staged_state rid (started_state rid (created_state rid req)) S evs) res fin cl stE)"

section \<open>Properties of the registry\<close>

lemma stage_order_all: "s \<in> set PIPELINE_STAGE_ORDER"
  by (cases s) (simp_all add: PIPELINE_STAGE_ORDER_def)

lemma stages_complete_iff:
  "stages_complete state \<longleftrightarrow> (\<forall>s. \<exists>sn. stages state s = Some sn \<and> stage sn = s)"
proof
  assume a: "stages_complete state"
  show "\<forall>s. \<exists>sn. stages state s = Some sn \<and> stage sn = s"
  proof
    fix s
    have "s \<in> set PIPELINE_STAGE_ORDER" by (rule stage_order_all)
    with a show "\<exists>sn. stages state s = Some sn \<and> stage sn = s"
      by (auto simp: stages_complete_def list_all_iff split: option.splits)
  qed
next
  assume b: "\<forall>s. \<exists>sn. stages state s = Some sn \<and> stage sn = s"
  have "\<And>s. (case stages state s of None \<Rightarrow> False | Some sn \<Rightarrow> stage sn = s)"
  proof -
    fix s
    from b obtain sn where "stages state s = Some sn \<and> stage sn = s" by blast
    then show "case stages state s of None \<Rightarrow> False | Some sn \<Rightarrow> stage sn = s" by simp
  qed
  then show "stages_complete state"
    by (simp add: stages_complete_def list_all_iff)
qed

lemma initial_stages_complete:
  "initial_stages s = Some \<lparr>stage = s, status = ''queued'', detail = Some ''Awaiting execution'', payload = None\<rparr>"
  by (cases s) (simp_all add: initial_stages_def PIPELINE_STAGE_ORDER_def)

lemma make_snapshot_stage: "make_snapshot s st d p = Inr sn \<Longrightarrow> stage sn = s"
  by (auto simp: make_snapshot_def split: pyval.splits)

lemma do_call_complete: "registry_complete reg \<Longrightarrow> registry_complete (do_call reg c)"
proof (cases c)
  case (CreateRun rid rname req)
  then show "registry_complete reg \<Longrightarrow> ?thesis"
    by (auto simp: registry_complete_def create_run_def Let_def stages_complete_iff initial_stages_complete)
next
  case (MarkRunStarted rid)
  then show "registry_complete reg \<Longrightarrow> ?thesis"
    by (auto simp: registry_complete_def mark_run_started_def stages_complete_iff split: option.splits if_splits)
next
  case (UpdateStage rid s st d p)
  then show "registry_complete reg \<Longrightarrow> ?thesis"
    by (auto simp: registry_complete_def update_stage_def Let_def stages_complete_iff
        dest: make_snapshot_stage split: option.splits if_splits sum.splits)
next
  case (MarkRunCompleted rid resp)
  then show "registry_complete reg \<Longrightarrow> ?thesis"
    by (auto simp: registry_complete_def mark_run_completed_def Let_def stages_complete_iff split: option.splits if_splits)
next
  case (MarkRunFailed rid m)
  then show "registry_complete reg \<Longrightarrow> ?thesis"
    by (auto simp: registry_complete_def mark_run_failed_def stages_complete_iff split: option.splits if_splits)
qed

lemma after_calls_complete: "registry_complete (after_calls cs)"
  unfolding after_calls_def
proof (induction cs rule: rev_induct)
  case Nil
  show ?case by (simp add: registry_complete_def)
next
  case (snoc c cs)
  then show ?case by (simp add: do_call_complete)
qed

lemma stage_snapshots_complete:
  assumes "stages_complete state"
  shows "map stage (stage_snapshots state) = PIPELINE_STAGE_ORDER"
proof -
  have "\<And>s. \<exists>sn. stages state s = Some sn \<and> stage sn = s"
    using assms by (simp add: stages_complete_iff)
  then obtain f where f: "\<And>s. stages state s = Some (f s) \<and> stage (f s) = s" by metis
  have "stage_snapshots state = map f PIPELINE_STAGE_ORDER"
    by (simp add: stage_snapshots_def List.map_filter_def f PIPELINE_STAGE_ORDER_def)
  then show ?thesis by (simp add: f PIPELINE_STAGE_ORDER_def)
qed

text \<open>
  C3. Whatever calls the registry has received since it was created, a run it holds has
  a snapshot for every declared stage and for nothing else, and a status query returns
  the seven snapshots in declared order. This includes the registry right after
  \<open>create_run\<close>, and after any stage updates.
\<close>

theorem stage_list_always_complete:
  assumes "after_calls cs rid = Some state"
  shows "dom (stages state) = set PIPELINE_STAGE_ORDER
     \<and> (\<exists>resp. fst (get_status (after_calls cs) rid) = Some resp
          \<and> map stage (sr_stages resp) = PIPELINE_STAGE_ORDER
          \<and> length (sr_stages resp) = 7)"
proof -
  have sc: "stages_complete state"
    using after_calls_complete[of cs] assms by (simp add: registry_complete_def)
  have m: "map stage (stage_snapshots state) = PIPELINE_STAGE_ORDER"
    by (rule stage_snapshots_complete[OF sc])
  have "length (map stage (stage_snapshots state)) = 7"
    unfolding m by (simp add: PIPELINE_STAGE_ORDER_def)
  then have l: "length (stage_snapshots state) = 7" by simp
  have d: "dom (stages state) = set PIPELINE_STAGE_ORDER"
    using sc by (auto simp: stages_complete_iff stage_order_all)
  show ?thesis using assms m l d by (simp add: get_status_def)
qed

theorem stage_list_always_complete_witness:
  "after_calls [CreateRun ''r1'' ''demo'' demo_request,
                UpdateStage ''r1'' editing ''running'' None VNone] ''r1'' \<noteq> None
   \<and> map stage (sr_stages (the (fst (get_status
        (after_calls [CreateRun ''r1'' ''demo'' demo_request,
                      UpdateStage ''r1'' editing ''running'' None VNone]) ''r1''))))
       = PIPELINE_STAGE_ORDER"
proof -
  obtain state where s: "after_calls [CreateRun ''r1'' ''demo'' demo_request,
      UpdateStage ''r1'' editing ''running'' None VNone] ''r1'' = Some state"
    by (simp add: after_calls_def create_run_def update_stage_def make_snapshot_def
        snapshot_json_ok_def Let_def)
  from stage_list_always_complete[OF s] s show ?thesis by auto
qed

text \<open>
  C7. For a run identifier the registry does not hold, \<open>get_status\<close> returns None
  (not found) and raises nothing, and \<open>update_stage\<close> raises nothing and leaves the
  whole registry as it was: no run state changes and no event is enqueued.
\<close>

theorem unknown_run_is_not_found:
  "reg rid = None \<Longrightarrow>
     fst (get_status reg rid) = None \<and> update_stage reg rid s st d p = (None, reg)"
  by (simp add: get_status_def update_stage_def)

theorem unknown_run_is_not_found_witness:
  "demo_registry ''r2'' = None
   \<and> fst (get_status demo_registry ''r2'') = None
   \<and> update_stage demo_registry ''r2'' ingest ''running'' None (VInt 3) = (None, demo_registry)"
proof -
  have h: "demo_registry ''r2'' = None"
    by (simp add: demo_registry_def create_run_def Let_def)
  show ?thesis
    using h unknown_run_is_not_found[of demo_registry "''r2''" ingest "''running''" None "VInt 3"]
    by simp
qed

lemma do_call_other: "call_run c \<noteq> rid \<Longrightarrow> do_call reg c rid = reg rid"
  by (cases c)
     (auto simp: create_run_def mark_run_started_def update_stage_def mark_run_completed_def
        mark_run_failed_def Let_def split: option.splits sum.splits)

lemma calls_other:
  "list_all (\<lambda>c. call_run c \<noteq> rid) cs \<Longrightarrow> foldl do_call reg cs rid = reg rid"
  by (induction cs arbitrary: reg) (simp_all add: do_call_other)

text \<open>
  C9. \<open>get_status\<close> leaves the registry as it was, so a second call right after the
  first returns the same response: same status, same stage list, same outputs. The
  response is also the same when, between the two calls, the registry receives any calls
  that address other runs.
\<close>

theorem get_status_twice_same:
  "snd (get_status reg rid) = reg
   \<and> fst (get_status (snd (get_status reg rid)) rid) = fst (get_status reg rid)
   \<and> (list_all (\<lambda>c. call_run c \<noteq> rid) cs \<longrightarrow>
        fst (get_status (foldl do_call (snd (get_status reg rid)) cs) rid)
          = fst (get_status reg rid))"
proof -
  have a: "snd (get_status reg rid) = reg"
    by (simp add: get_status_def split: option.splits)
  have "fst (get_status (foldl do_call reg cs) rid) = fst (get_status reg rid)"
    if "list_all (\<lambda>c. call_run c \<noteq> rid) cs"
    using calls_other[OF that, of reg] by (simp add: get_status_def split: option.splits)
  with a show ?thesis by simp
qed

theorem get_status_twice_same_witness:
  "list_all (\<lambda>c. call_run c \<noteq> ''r1'') other_run_calls
   \<and> fst (get_status (foldl do_call (snd (get_status demo_registry ''r1'')) other_run_calls) ''r1'')
       = fst (get_status demo_registry ''r1'')
   \<and> fst (get_status demo_registry ''r1'') \<noteq> None"
proof -
  have h: "list_all (\<lambda>c. call_run c \<noteq> ''r1'') other_run_calls"
    by (simp add: other_run_calls_def)
  have k: "fst (get_status demo_registry ''r1'') \<noteq> None"
    by (simp add: get_status_def demo_registry_def create_run_def Let_def)
  from get_status_twice_same[of demo_registry "''r1''" other_run_calls] h k
  show ?thesis by blast
qed

text \<open>
  C10. On a known run, \<open>update_stage\<close> touches the snapshot of the addressed stage
  only: the snapshots of all other stages, the run's status, outputs, name, identifier
  and request are as before, and so is every other run. When the snapshot can be built,
  it is the one stored under the addressed stage.
\<close>

theorem update_stage_frame:
  "reg rid = Some state \<Longrightarrow> update_stage reg rid s st d p = (r, reg') \<Longrightarrow>
   (\<exists>state'. reg' rid = Some state'
      \<and> (\<forall>s'. s' \<noteq> s \<longrightarrow> stages state' s' = stages state s')
      \<and> run_status state' = run_status state \<and> outputs state' = outputs state
      \<and> run_name state' = run_name state \<and> run_id state' = run_id state
      \<and> request state' = request state
      \<and> (\<forall>snap. make_snapshot s st d p = Inr snap \<longrightarrow> stages state' s = Some snap))
   \<and> (\<forall>rid'. rid' \<noteq> rid \<longrightarrow> reg' rid' = reg rid')"
  by (auto simp: update_stage_def Let_def split: sum.splits if_splits)

theorem update_stage_frame_witness:
  "\<exists>state state'. demo_registry ''r1'' = Some state
     \<and> snd (update_stage demo_registry ''r1'' editing ''running'' None VNone) ''r1'' = Some state'
     \<and> stages state' ingest = stages state ingest
     \<and> run_status state' = run_status state \<and> outputs state' = outputs state
     \<and> stages state' editing =
         Some \<lparr>stage = editing, status = ''running'', detail = None, payload = None\<rparr>"
proof -
  obtain state where h: "demo_registry ''r1'' = Some state"
    by (simp add: demo_registry_def create_run_def Let_def)
  obtain r reg' where u: "update_stage demo_registry ''r1'' editing ''running'' None VNone = (r, reg')"
    by (cases "update_stage demo_registry ''r1'' editing ''running'' None VNone") blast
  have m: "make_snapshot editing ''running'' None VNone
             = Inr \<lparr>stage = editing, status = ''running'', detail = None, payload = None\<rparr>"
    by (simp add: make_snapshot_def)
  from update_stage_frame[OF h u] m h u show ?thesis by auto
qed

section \<open>Properties of the sanitiser\<close>

lemma update_fresh: "k \<notin> fst ` set acc \<Longrightarrow> AList.update k v acc = acc @ [(k, v)]"
  by (induction acc) auto

lemma map_filter_reduce: "List.map_filter reduce_asset items = map reduced_entry (dict_items items)"
  by (induction items rule: dict_items.induct)
     (simp_all add: List.map_filter_def reduce_asset_def reduced_entry_def)

lemma rewrite_asset_path_eq:
  "rewrite_asset_path self s = (if under_output_root self s then public_form self s else s)"
  by (auto simp: rewrite_asset_path_def public_asset_path_def under_output_root_def public_form_def
      split: option.splits)

lemma sanitize_entry_spec:
  "k = ''assets'' \<longrightarrow> \<not> isl (py_iter v) \<Longrightarrow> sanitize_entry self k v = Inr (spec_sanitize_value self k v)"
  by (auto simp: sanitize_entry_def spec_sanitize_value_def map_filter_reduce rewrite_asset_path_eq
      is_str_int_float_def split: sum.splits pyval.splits)

lemma sanitize_items_spec:
  "distinct (map fst d) \<Longrightarrow> fst ` set acc \<inter> fst ` set d = {} \<Longrightarrow> assets_iterable d \<Longrightarrow>
   sanitize_items self d acc = Inr (acc @ map (\<lambda>kv. (fst kv, spec_sanitize_value self (fst kv) (snd kv))) d)"
proof (induction d arbitrary: acc)
  case Nil
  then show ?case by simp
next
  case (Cons kv d)
  obtain k v where kv: "kv = (k, v)" by (cases kv)
  have e: "sanitize_entry self k v = Inr (spec_sanitize_value self k v)"
    using Cons.prems(3) kv by (intro sanitize_entry_spec) (simp add: assets_iterable_def)
  have fresh: "k \<notin> fst ` set acc" using Cons.prems(2) kv by auto
  let ?acc = "acc @ [(k, spec_sanitize_value self k v)]"
  have d1: "distinct (map fst d)" using Cons.prems(1) by simp
  have d2: "fst ` set ?acc \<inter> fst ` set d = {}" using Cons.prems(1,2) kv by auto
  have d3: "assets_iterable d" using Cons.prems(3) by (simp add: assets_iterable_def)
  show ?case
    using Cons.IH[OF d1 d2 d3] by (simp add: kv e update_fresh[OF fresh])
qed

text \<open>
  C6, as the code has it. For a dictionary payload with distinct keys whose
  \<open>assets\<close> value, if any, can be iterated, \<open>_sanitize_payload\<close> returns a
  dictionary with the same keys in the same order, each value as the rule says: under
  the key \<open>assets\<close> (whatever the stage) the list of the dictionary entries, each
  reduced to exactly \<open>id\<close>, \<open>local_path\<close> and \<open>license\<close>; a string under the
  output root rewritten to \<open>outputs/<path-under-root>\<close>; any other string unchanged;
  an int, a float or a bool unchanged; a value of any other kind replaced by its
  \<open>str()\<close>. A dataclass instance is sanitised as the dictionary \<open>asdict\<close> makes of it.
\<close>

theorem sanitize_payload_rule:
  assumes "distinct (map fst d)" and "assets_iterable d"
  shows "sanitize_payload self (VDict d)
           = Inr (VDict (map (\<lambda>kv. (fst kv, spec_sanitize_value self (fst kv) (snd kv))) d))
         \<and> sanitize_payload self (VData c fs) = sanitize_payload self (VDict (asdict fs))"
  using sanitize_items_spec[OF assms(1) _ assms(2), of "[]" self]
  by (simp add: sanitize_dict_def ebind_def)

theorem sanitize_payload_rule_witness:
  "distinct (map fst demo_ingest_payload) \<and> assets_iterable demo_ingest_payload
   \<and> sanitize_payload demo_runner (VDict demo_ingest_payload)
       = Inr (VDict
           [(''assets'', VList [VDict [(''id'', VStr ''a1''),
                                       (''local_path'', VStr ''/srv/assets/a1.mp4''),
                                       (''license'', VStr ''cc0'')]]),
            (''requested_keywords'', VStr (py_str demo_runner (VList [VStr ''stem'']))),
            (''assets_dir'', VStr ''outputs/demo/clips''),
            (''count'', VInt 1),
            (''note'', VStr ''/srv/elsewhere'')])"
proof -
  have h1: "distinct (map fst demo_ingest_payload)"
    by (simp add: demo_ingest_payload_def)
  have h2: "assets_iterable demo_ingest_payload"
    by (simp add: demo_ingest_payload_def assets_iterable_def py_iter_def)
  have v: "map (\<lambda>kv. (fst kv, spec_sanitize_value demo_runner (fst kv) (snd kv))) demo_ingest_payload
       = [(''assets'', VList [VDict [(''id'', VStr ''a1''),
                                       (''local_path'', VStr ''/srv/assets/a1.mp4''),
                                       (''license'', VStr ''cc0'')]]),
            (''requested_keywords'', VStr (py_str demo_runner (VList [VStr ''stem'']))),
            (''assets_dir'', VStr ''outputs/demo/clips''),
            (''count'', VInt 1),
            (''note'', VStr ''/srv/elsewhere'')]"
    by code_simp
  from sanitize_payload_rule[OF h1 h2, of demo_runner "''C''" "[]"] h1 h2 v show ?thesis
    by simp
qed

text \<open>
  C6 as stated fails where it says that every value that is not a string is coerced to
  its string form: an integer value comes back as the integer.
\<close>

theorem sanitize_keeps_int_counterexample:
  "sanitize_payload demo_runner (VDict [(''count'', VInt 3)])
     = Inr (VDict [(''count'', VInt 3)])
   \<and> sanitize_payload demo_runner (VDict [(''count'', VInt 3)])
     \<noteq> Inr (VDict [(''count'', VStr (py_str demo_runner (VInt 3)))])"
  by (simp add: sanitize_dict_def ebind_def sanitize_entry_def is_str_int_float_def)

section \<open>Properties of the orchestrator\<close>

lemma progress_steady: "steady reg0 rid st0 evs (progress reg0 rid st0 S evs)"
  unfolding steady_def by (intro exI[of _ S] exI[of _ evs] exI[of _ "[]"]) simp

lemma steady_more: "steady reg0 rid st0 evs reg \<Longrightarrow> steady reg0 rid st0 (evs @ extra) reg"
  unfolding steady_def by (metis append.assoc)

lemma steady_all_more:
  "list_all (steady reg0 rid st0 evs) ns \<Longrightarrow> list_all (steady reg0 rid st0 (evs @ extra)) ns"
  by (simp add: list_all_iff steady_more)

lemma timeline_call:
  "call f w = (r, w') \<Longrightarrow> timeline w' = timeline w @ [runs w'] \<and> invoked w' = invoked w
      \<and> f (runs w) = (r, runs w')"
  by (auto simp: call_def timeline_def split: prod.splits)

lemma queue_stages_swap:
  "(st::RunState)\<lparr>queue := q, stages := S\<rparr> = st\<lparr>stages := S, queue := q\<rparr>"
  by (cases st) simp

lemma update_known:
  assumes "make_snapshot s x d p = Inr sn"
  shows "update_stage (progress reg0 rid st0 S evs) rid s x d p =
     (if snapshot_json_ok sn then (None, progress reg0 rid st0 (S(s \<mapsto> sn)) (evs @ [sn]))
      else (Some NotSerializable, progress reg0 rid st0 (S(s \<mapsto> sn)) evs))"
  using assms by (simp add: update_stage_def progress_def Let_def queue_stages_swap)

lemma call_update_reaches:
  assumes r: "reaches w0 rid st0 w S evs ns invs"
      and m: "make_snapshot s x d p = Inr sn"
      and c: "call (\<lambda>reg. update_stage reg rid s x d p) w = (r, w')"
  shows "(r = None \<and> snapshot_json_ok sn \<and> reaches w0 rid st0 w' (S(s \<mapsto> sn)) (evs @ [sn]) (ns @ [runs w']) invs)
       \<or> (r = Some NotSerializable \<and> \<not> snapshot_json_ok sn \<and> reaches w0 rid st0 w' (S(s \<mapsto> sn)) evs (ns @ [runs w']) invs)"
proof -
  from timeline_call[OF c] have t: "timeline w' = timeline w @ [runs w']" and i: "invoked w' = invoked w"
    and u: "update_stage (runs w) rid s x d p = (r, runs w')" by simp_all
  from r have rw: "runs w = progress (runs w0) rid st0 S evs" by (simp add: reaches_def)
  show ?thesis
  proof (cases "snapshot_json_ok sn")
    case True
    with u rw update_known[OF m, of "runs w0" rid st0 S evs]
    have "r = None" and "runs w' = progress (runs w0) rid st0 (S(s \<mapsto> sn)) (evs @ [sn])" by simp_all
    with r t i True show ?thesis by (simp add: reaches_def progress_steady steady_all_more)
  next
    case False
    with u rw update_known[OF m, of "runs w0" rid st0 S evs]
    have "r = Some NotSerializable" and "runs w' = progress (runs w0) rid st0 (S(s \<mapsto> sn)) evs" by simp_all
    with r t i False show ?thesis by (simp add: reaches_def progress_steady)
  qed
qed

lemma make_snapshot_none:
  "make_snapshot s x d VNone = Inr \<lparr>stage = s, status = x, detail = d, payload = None\<rparr>"
  by (simp add: make_snapshot_def)

lemma json_ok_none: "snapshot_json_ok \<lparr>stage = s, status = x, detail = d, payload = None\<rparr>"
  by (simp add: snapshot_json_ok_def)

lemma except_reaches:
  assumes rid: "rid \<noteq> []"
      and r: "reaches w0 rid st0 w S evs ns invs"
      and e: "run_stage_except self s (Some rid) exc sn w = (res, sn', w')"
  shows "res = Inl (stage_failed s)
       \<and> reaches w0 rid st0 w' (S(s \<mapsto> error_snapshot self s exc)) (evs @ [error_snapshot self s exc])
            (ns @ [runs w']) invs"
proof -
  obtain r1 w1 where c: "call (\<lambda>reg. update_stage reg rid s ''error'' (Some (exc_str self exc)) VNone) w = (r1, w1)"
    by (cases "call (\<lambda>reg. update_stage reg rid s ''error'' (Some (exc_str self exc)) VNone) w") blast
  from call_update_reaches[OF r make_snapshot_none c]
  have r1: "r1 = None" and rr: "reaches w0 rid st0 w1 (S(s \<mapsto> error_snapshot self s exc))
       (evs @ [error_snapshot self s exc]) (ns @ [runs w1]) invs"
    by (simp_all add: json_ok_none error_snapshot_def)
  from e c r1 rid have "res = Inl (stage_failed s)" and "w' = w1"
    by (simp_all add: run_stage_except_def tracked_def stage_failed_def Let_def)
  with rr show ?thesis by simp
qed

lemma make_snapshot_again:
  "make_snapshot s x d p = Inr sn \<Longrightarrow> make_snapshot s x d (payload_value (payload sn)) = Inr sn"
  by (auto simp: make_snapshot_def payload_value_def split: pyval.splits)

lemma make_snapshot_fields:
  "make_snapshot s x d p = Inr sn \<Longrightarrow> stage sn = s \<and> status sn = x \<and> detail sn = d"
  by (auto simp: make_snapshot_def split: pyval.splits)

lemma timeline_log: "timeline (w\<lparr>invoked := x\<rparr>) = timeline w"
  by (simp add: timeline_def)

lemma reaches_log:
  "reaches w0 rid st0 w S evs ns invs \<Longrightarrow>
   reaches w0 rid st0 (w\<lparr>invoked := invoked w @ [i]\<rparr>) S evs ns (invs @ [i])"
  by (simp add: reaches_def timeline_log)

lemma stage_outcome_error: "(\<forall>e. out = Inl e \<longrightarrow> exc = e) \<Longrightarrow>
   stage_outcome self s out (Inl (stage_failed s)) (error_snapshot self s exc)"
  by (auto simp: stage_outcome_def error_snapshot_def)

lemma try_reaches:
  assumes rid: "rid \<noteq> []"
      and r: "reaches w0 rid st0 w S evs ns invs"
      and t: "run_stage_try self s (Some rid) ex db sn w = (res, sn', w')"
  shows "\<exists>b ns'. reaches w0 rid st0 w' (S(s \<mapsto> b)) (evs @ [b]) (ns @ ns') (invs @ [(s, ex ())])
           \<and> stage_outcome self s (ex ()) res b"
proof -
  define wl where "wl = w\<lparr>invoked := invoked w @ [(s, ex ())]\<rparr>"
  have rl: "reaches w0 rid st0 wl S evs ns (invs @ [(s, ex ())])"
    unfolding wl_def by (rule reaches_log[OF r])
  have fail: "\<exists>b ns'. reaches w0 rid st0 w' (S(s \<mapsto> b)) (evs @ [b]) (ns @ ns') (invs @ [(s, ex ())])
           \<and> stage_outcome self s (ex ()) res b"
    if e: "run_stage_except self s (Some rid) exc sn wl = (res, sn', w')"
      and x: "\<forall>e. ex () = Inl e \<longrightarrow> exc = e" for exc
    using except_reaches[OF rid rl e] stage_outcome_error[OF x] by blast
  show ?thesis
  proof (cases "ex ()")
    case (Inl exc)
    with t have "run_stage_except self s (Some rid) exc sn wl = (res, sn', w')"
      by (simp add: run_stage_try_def wl_def Let_def)
    then show ?thesis using Inl by (intro fail) simp_all
  next
    case (Inr v)
    note v = this
    show ?thesis
    proof (cases "db v")
      case (Inl exc)
      with t v have "run_stage_except self s (Some rid) exc sn wl = (res, sn', w')"
        by (simp add: run_stage_try_def wl_def Let_def)
      then show ?thesis using v by (intro fail) simp_all
    next
      case (Inr dtl)
      note dtl = this
      show ?thesis
      proof (cases "ebind (sanitize_payload self v) (make_snapshot s ''done'' (Some dtl))")
        case (Inl exc)
        with t v dtl have "run_stage_except self s (Some rid) exc sn wl = (res, sn', w')"
          by (simp add: run_stage_try_def wl_def Let_def)
        then show ?thesis using v by (intro fail) simp_all
      next
        case (Inr snap)
        then obtain p where mk: "make_snapshot s ''done'' (Some dtl) p = Inr snap"
          by (auto simp: ebind_def split: sum.splits)
        note mk' = make_snapshot_again[OF mk]
        obtain r1 w1 where c: "call (\<lambda>reg. update_stage reg rid s ''done'' (Some dtl)
              (payload_value (payload snap))) wl = (r1, w1)"
          by (cases "call (\<lambda>reg. update_stage reg rid s ''done'' (Some dtl)
              (payload_value (payload snap))) wl") blast
        from call_update_reaches[OF rl mk' c]
        consider (ok) "r1 = None"
            "reaches w0 rid st0 w1 (S(s \<mapsto> snap)) (evs @ [snap]) (ns @ [runs w1]) (invs @ [(s, ex ())])"
          | (bad) "r1 = Some NotSerializable"
            "reaches w0 rid st0 w1 (S(s \<mapsto> snap)) evs (ns @ [runs w1]) (invs @ [(s, ex ())])"
          by blast
        then show ?thesis
        proof cases
          case ok
          from t v dtl Inr c ok(1) rid have "res = Inr v" "w' = w1"
            by (simp_all add: run_stage_try_def wl_def Let_def tracked_def)
          moreover have "stage_outcome self s (ex ()) (Inr v) snap"
            using make_snapshot_fields[OF mk] v by (simp add: stage_outcome_def)
          ultimately show ?thesis using ok(2) by blast
        next
          case bad
          from t v dtl Inr c bad(1) rid
          have e: "run_stage_except self s (Some rid) NotSerializable (sn @ [snap]) w1 = (res, sn', w')"
            by (simp add: run_stage_try_def wl_def Let_def tracked_def)
          from except_reaches[OF rid bad(2) e]
          have "res = Inl (stage_failed s)"
            and "reaches w0 rid st0 w' (S(s \<mapsto> error_snapshot self s NotSerializable))
                   (evs @ [error_snapshot self s NotSerializable]) (ns @ [runs w1, runs w'])
                   (invs @ [(s, ex ())])"
            by simp_all
          moreover have "stage_outcome self s (ex ()) (Inl (stage_failed s))
                           (error_snapshot self s NotSerializable)"
            using v by (intro stage_outcome_error) simp
          ultimately show ?thesis by blast
        qed
      qed
    qed
  qed
qed

lemma run_stage_reaches:
  assumes rid: "rid \<noteq> []"
      and r: "reaches w0 rid st0 w S evs ns invs"
      and t: "run_stage self s sn ex db (Some rid) w = (res, sn', w')"
  shows "\<exists>S' b ns'. reaches w0 rid st0 w' S' (evs @ [running_snapshot s, b]) (ns @ ns')
             (invs @ [(s, ex ())])
           \<and> S' s = Some b \<and> stage_outcome self s (ex ()) res b"
proof -
  obtain r1 w1 where c: "call (\<lambda>reg. update_stage reg rid s ''running'' None VNone) w = (r1, w1)"
    by (cases "call (\<lambda>reg. update_stage reg rid s ''running'' None VNone) w") blast
  from call_update_reaches[OF r make_snapshot_none c]
  have r1: "r1 = None"
    and rr: "reaches w0 rid st0 w1 (S(s \<mapsto> running_snapshot s)) (evs @ [running_snapshot s])
               (ns @ [runs w1]) invs"
    by (simp_all add: json_ok_none running_snapshot_def)
  from t c r1 rid have "run_stage_try self s (Some rid) ex db sn w1 = (res, sn', w')"
    by (simp add: run_stage_def tracked_def)
  from try_reaches[OF rid rr this]
  obtain b ns' where "reaches w0 rid st0 w' ((S(s \<mapsto> running_snapshot s))(s \<mapsto> b))
       ((evs @ [running_snapshot s]) @ [b]) ((ns @ [runs w1]) @ ns') (invs @ [(s, ex ())])"
    and "stage_outcome self s (ex ()) res b" by blast
  then show ?thesis
    by (intro exI[of _ "(S(s \<mapsto> running_snapshot s))(s \<mapsto> b)"] exI[of _ b] exI[of _ "runs w1 # ns'"]) simp
qed

lemma done_trace_Suc:
  "k < 6 \<Longrightarrow> done_trace (Suc k) =
     done_trace k @ [(executor_stages ! k, ''running''), (executor_stages ! k, ''done'')]"
proof -
  assume "k < 6"
  then have "k < length executor_stages" by (simp add: executor_stages_def)
  then show ?thesis by (simp add: done_trace_def take_Suc_conv_app_nth)
qed

lemma take_stages_Suc: "k < 6 \<Longrightarrow> take (Suc k) executor_stages = take k executor_stages @ [executor_stages ! k]"
proof -
  assume "k < 6"
  then have "k < length executor_stages" by (simp add: executor_stages_def)
  then show ?thesis by (simp add: take_Suc_conv_app_nth)
qed

lemma chain:
  assumes rid: "rid \<noteq> []"
      and a: "after_ok w0 rid st0 k w"
      and k: "k < 6"
      and s: "s = executor_stages ! k"
      and cont: "\<And>v sn' w2. after_ok w0 rid st0 (Suc k) w2 \<Longrightarrow> run_summary self w0 rid st0 (K v sn' w2)"
  shows "run_summary self w0 rid st0
           (case run_stage self s sn ex db (Some rid) w of
              (Inl e, sn', w') \<Rightarrow> (Inl e, w')
            | (Inr v, sn', w') \<Rightarrow> K v sn' w')"
proof -
  obtain res sn' w' where t: "run_stage self s sn ex db (Some rid) w = (res, sn', w')"
    by (cases "run_stage self s sn ex db (Some rid) w") blast
  from a obtain S evs ns invs where r: "reaches w0 rid st0 w S evs ns invs"
    and tr: "trace_of evs = done_trace k" and iv: "map fst invs = take k executor_stages"
    and ok: "list_all returned invs"
    by (auto simp: after_ok_def)
  from run_stage_reaches[OF rid r t] obtain S' b ns' where
    r': "reaches w0 rid st0 w' S' (evs @ [running_snapshot s, b]) (ns @ ns') (invs @ [(s, ex ())])"
    and Sb: "S' s = Some b" and so: "stage_outcome self s (ex ()) res b"
    by blast
  from so have sb: "stage b = s" by (simp add: stage_outcome_def)
  from so consider (good) v where "res = Inr v" "ex () = Inr v" "status b = ''done''"
    | (bad) exc where "res = Inl (stage_failed s)" "b = error_snapshot self s exc"
        "\<forall>e. ex () = Inl e \<longrightarrow> exc = e"
    by (auto simp: stage_outcome_def)
  then show ?thesis
  proof cases
    case good
    have "trace_of (evs @ [running_snapshot s, b]) = done_trace (Suc k)"
      using tr sb good(3) s by (simp add: trace_of_def done_trace_Suc[OF k] running_snapshot_def)
    moreover have "map fst (invs @ [(s, ex ())]) = take (Suc k) executor_stages"
      using iv s by (simp add: take_stages_Suc[OF k])
    moreover have "list_all returned (invs @ [(s, ex ())])"
      using ok good(2) by (simp add: returned_def)
    ultimately have "after_ok w0 rid st0 (Suc k) w'"
      using r' unfolding after_ok_def by blast
    from cont[OF this] show ?thesis by (simp add: t good(1))
  next
    case bad
    have "trace_of (evs @ [running_snapshot s, b]) = failed_trace k"
      using tr s bad(2) by (simp add: trace_of_def failed_trace_def running_snapshot_def error_snapshot_def)
    moreover have "map fst (invs @ [(s, ex ())]) = take (Suc k) executor_stages"
      using iv s by (simp add: take_stages_Suc[OF k])
    moreover have "list_all returned (butlast (invs @ [(s, ex ())]))"
      using ok by simp
    moreover have "\<forall>e. snd (last (invs @ [(s, ex ())])) = Inl e \<longrightarrow> exc = e"
      using bad(3) by simp
    ultimately have "stages_result self S' (evs @ [running_snapshot s, b]) (invs @ [(s, ex ())])
        (Inl (stage_failed s))"
      using k Sb bad(2) s unfolding stages_result_def by blast
    with r' show ?thesis by (auto simp: run_summary_def t bad(1))
  qed
qed

lemma finish_summary:
  assumes rid: "rid \<noteq> []"
      and a: "after_ok w0 rid st0 6 w"
  shows "run_summary self w0 rid st0 (finish_run self req (Some rid) vp np pp ap sn w)"
proof -
  define dtl where "dtl = ''Run finished at '' @ utcnow_isoformat self @ ''Z''"
  define snap where "snap = \<lparr>stage = PipelineStage.completed, status = ''done'', detail = Some dtl, payload = None\<rparr>"
  from a obtain S evs ns invs where r: "reaches w0 rid st0 w S evs ns invs"
    and tr: "trace_of evs = done_trace 6" and iv: "map fst invs = take 6 executor_stages"
    and ok: "list_all returned invs"
    by (auto simp: after_ok_def)
  obtain r1 w1 where c: "call (\<lambda>reg. update_stage reg rid PipelineStage.completed ''done'' (Some dtl) VNone) w = (r1, w1)"
    by (cases "call (\<lambda>reg. update_stage reg rid PipelineStage.completed ''done'' (Some dtl) VNone) w") blast
  from call_update_reaches[OF r make_snapshot_none c]
  have r1: "r1 = None"
    and rr: "reaches w0 rid st0 w1 (S(PipelineStage.completed \<mapsto> snap)) (evs @ [snap]) (ns @ [runs w1]) invs"
    by (simp_all add: json_ok_none snap_def)
  have w': "snd (finish_run self req (Some rid) vp np pp ap sn w) = w1"
    using c r1 rid by (simp add: finish_run_def Let_def tracked_def dtl_def)
  have "trace_of (evs @ [snap]) = full_trace"
    using tr by (simp add: trace_of_def full_trace_def snap_def)
  moreover have "map fst invs = executor_stages"
    using iv by (simp add: executor_stages_def)
  ultimately have "stages_result self (S(PipelineStage.completed \<mapsto> snap)) (evs @ [snap]) invs
      (fst (finish_run self req (Some rid) vp np pp ap sn w))"
    using ok by (simp add: stages_result_def)
  with rr w' show ?thesis unfolding run_summary_def by blast
qed

lemma reaches_start:
  "runs w rid = Some st \<Longrightarrow> reaches w rid st w (stages st) [] [] []"
  by (auto simp: reaches_def progress_def fun_eq_iff)

lemma after_ok_start: "runs w rid = Some st \<Longrightarrow> after_ok w rid st 0 w"
  unfolding after_ok_def
  by (intro exI[of _ "stages st"] exI[of _ "[]"]) (simp add: reaches_start trace_of_def done_trace_def)

lemma execute_summary:
  assumes rid: "rid \<noteq> []" and known: "runs w rid = Some st"
  shows "run_summary self w rid st (execute self req (Some rid) w)"
  unfolding execute_def
  apply (rule chain[where k=0, OF rid after_ok_start[OF known]])
    apply simp
   apply (simp add: executor_stages_def)
  apply (rule chain[where k="Suc 0", OF rid])
     apply assumption
    apply simp
   apply (simp add: executor_stages_def)
  apply (rule chain[where k="Suc (Suc 0)", OF rid])
     apply assumption
    apply simp
   apply (simp add: executor_stages_def)
  apply (rule chain[where k="Suc (Suc (Suc 0))", OF rid])
     apply assumption
    apply simp
   apply (simp add: executor_stages_def)
  apply (rule chain[where k="Suc (Suc (Suc (Suc 0)))", OF rid])
     apply assumption
    apply simp
   apply (simp add: executor_stages_def)
  apply (rule chain[where k="Suc (Suc (Suc (Suc (Suc 0))))", OF rid])
     apply assumption
    apply simp
   apply (simp add: executor_stages_def)
  apply (rule finish_summary[OF rid])
  apply (simp add: eval_nat_numeral)
  done

lemma outputs_status_swap:
  "(st::RunState)\<lparr>outputs := out, run_status := r\<rparr> = st\<lparr>run_status := r, outputs := out\<rparr>"
  by (cases st) simp

lemma tracking_summaryI:
  assumes "runs w' = (runs w)(rid \<mapsto> stE)"
      and "timeline w' = timeline w @ (runs w)(rid \<mapsto> started_state rid st) # ns @ fin"
      and "list_all (steady (runs w) rid (started_state rid st) evs) ns"
      and "invoked w' = invoked w @ invs"
      and "stages_result self S evs invs res"
      and "run_ending self rid (runs w) (staged_state rid (started_state rid st) S evs) res fin cl stE"
  shows "tracking_summary self rid w st (None, w')"
  unfolding tracking_summary_def using assms by (simp del: append_Cons) blast

lemma call_failed:
  assumes "runs w2 = reg(rid \<mapsto> stF)"
  shows "tracking_except self rid exc w2 =
     (None, w2\<lparr>runs := reg(rid \<mapsto> stF\<lparr>run_status := error,
                                         queue := queue stF @ failure_events rid (exc_str self exc)\<rparr>),
               past := runs w2 # past w2\<rparr>)"
  using assms by (simp add: tracking_except_def call_def mark_run_failed_def failure_events_def)

lemma timeline_push: "timeline (w\<lparr>runs := r, past := runs w # past w\<rparr>) = timeline w @ [r]"
  by (simp add: timeline_def)

lemma execute_with_tracking_summary:
  assumes rid: "rid \<noteq> []" and known: "runs w rid = Some st"
  shows "tracking_summary self rid w st (execute_with_tracking self rid req w)"
proof -
  define st1 where "st1 = started_state rid st"
  define w1 where "w1 = w\<lparr>runs := (runs w)(rid \<mapsto> st1), past := runs w # past w\<rparr>"
  have c1: "call (\<lambda>reg. mark_run_started reg rid) w = (None, w1)"
    using known by (simp add: call_def mark_run_started_def w1_def st1_def started_state_def)
  have k1: "runs w1 rid = Some st1" by (simp add: w1_def)
  have t1: "timeline w1 = timeline w @ [(runs w)(rid \<mapsto> st1)]"
    unfolding w1_def by (rule timeline_push)
  have i1: "invoked w1 = invoked w" by (simp add: w1_def)
  obtain res w2 where e: "execute self req (Some rid) w1 = (res, w2)"
    by (cases "execute self req (Some rid) w1") blast
  from execute_summary[OF rid k1, of self req] e
  obtain S evs ns invs where r: "reaches w1 rid st1 w2 S evs ns invs"
    and sr: "stages_result self S evs invs res"
    by (auto simp: run_summary_def)
  define stF where "stF = staged_state rid st1 S evs"
  from r have r2: "runs w2 = (runs w)(rid \<mapsto> stF)"
    by (simp add: reaches_def progress_def w1_def stF_def staged_state_def)
  from r have t2: "timeline w2 = timeline w @ (runs w)(rid \<mapsto> st1) # ns"
    and i2: "invoked w2 = invoked w @ invs"
    by (simp_all add: reaches_def t1 i1)
  have "progress (runs w1) rid st1 = progress (runs w) rid st1"
    by (simp add: progress_def w1_def fun_eq_iff)
  then have "steady (runs w1) rid st1 evs = steady (runs w) rid st1 evs"
    by (simp add: steady_def fun_eq_iff)
  with r have st: "list_all (steady (runs w) rid st1 evs) ns"
    by (simp add: reaches_def)
  show ?thesis
  proof (cases res)
    case (Inl exc)
    define stE where "stE = stF\<lparr>run_status := error, queue := queue stF @ failure_events rid (exc_str self exc)\<rparr>"
    define w' where "w' = w2\<lparr>runs := (runs w)(rid \<mapsto> stE), past := runs w2 # past w2\<rparr>"
    have x: "execute_with_tracking self rid req w = (None, w')"
      using c1 e Inl call_failed[OF r2, of self exc]
      by (simp add: execute_with_tracking_def w'_def stE_def)
    have "run_ending self rid (runs w) stF res [(runs w)(rid \<mapsto> stE)]
            (failure_events rid (exc_str self exc)) stE"
      by (simp add: run_ending_def Inl stE_def)
    then have en: "run_ending self rid (runs w) (staged_state rid (started_state rid st) S evs) res
            [(runs w)(rid \<mapsto> stE)] (failure_events rid (exc_str self exc)) stE"
      by (simp add: stF_def st1_def)
    have tl: "timeline w' = timeline w @ (runs w)(rid \<mapsto> started_state rid st) # ns @ [(runs w)(rid \<mapsto> stE)]"
      unfolding w'_def by (simp add: timeline_push t2 st1_def)
    have rw: "runs w' = (runs w)(rid \<mapsto> stE)" and iw: "invoked w' = invoked w @ invs"
      by (simp_all add: w'_def i2)
    show ?thesis
      unfolding x using st[unfolded st1_def] by (rule tracking_summaryI[OF rw tl _ iw sr en])
  next
    case (Inr resp)
    define stC where "stC = stF\<lparr>run_status := run_completed, outputs := resp_outputs resp,
        queue := queue stF @ [Some (RunEvent rid run_completed)]\<rparr>"
    show ?thesis
    proof (cases "response_json_ok resp")
      case True
      define stE where "stE = stF\<lparr>run_status := run_completed, outputs := resp_outputs resp,
         queue := queue stF @ [Some (RunEvent rid run_completed), Some (Complete rid resp), None]\<rparr>"
      define w' where "w' = w2\<lparr>runs := (runs w)(rid \<mapsto> stE), past := runs w2 # past w2\<rparr>"
      have c3: "call (\<lambda>reg. mark_run_completed reg rid resp) w2 = (None, w')"
        using True r2 by (simp add: call_def mark_run_completed_def Let_def w'_def stE_def)
      have x: "execute_with_tracking self rid req w = (None, w')"
        using c1 e Inr c3 by (simp add: execute_with_tracking_def)
      have "run_ending self rid (runs w) stF res [(runs w)(rid \<mapsto> stE)]
              [Some (RunEvent rid run_completed), Some (Complete rid resp), None] stE"
        by (simp add: run_ending_def Inr True stE_def)
      then have en: "run_ending self rid (runs w) (staged_state rid (started_state rid st) S evs) res
              [(runs w)(rid \<mapsto> stE)]
              [Some (RunEvent rid run_completed), Some (Complete rid resp), None] stE"
        by (simp add: stF_def st1_def)
      have tl: "timeline w' = timeline w @ (runs w)(rid \<mapsto> started_state rid st) # ns @ [(runs w)(rid \<mapsto> stE)]"
        unfolding w'_def by (simp add: timeline_push t2 st1_def)
      have rw: "runs w' = (runs w)(rid \<mapsto> stE)" and iw: "invoked w' = invoked w @ invs"
        by (simp_all add: w'_def i2)
      show ?thesis
        unfolding x using st[unfolded st1_def] by (rule tracking_summaryI[OF rw tl _ iw sr en])
    next
      case False
      define w3 where "w3 = w2\<lparr>runs := (runs w)(rid \<mapsto> stC), past := runs w2 # past w2\<rparr>"
      define stE where "stE = stF\<lparr>run_status := error, outputs := resp_outputs resp,
         queue := queue stF @ Some (RunEvent rid run_completed)
                    # failure_events rid (exc_str self NotSerializable)\<rparr>"
      define w' where "w' = w3\<lparr>runs := (runs w)(rid \<mapsto> stE), past := runs w3 # past w3\<rparr>"
      have c3: "call (\<lambda>reg. mark_run_completed reg rid resp) w2 = (Some NotSerializable, w3)"
        using False r2 by (simp add: call_def mark_run_completed_def Let_def w3_def stC_def)
      have r3: "runs w3 = (runs w)(rid \<mapsto> stC)" by (simp add: w3_def)
      have x: "execute_with_tracking self rid req w = (None, w')"
        using c1 e Inr c3 call_failed[OF r3, of self NotSerializable]
        by (simp add: execute_with_tracking_def w'_def stE_def stC_def outputs_status_swap)
      have "run_ending self rid (runs w) stF res [(runs w)(rid \<mapsto> stC), (runs w)(rid \<mapsto> stE)]
              (Some (RunEvent rid run_completed) # failure_events rid (exc_str self NotSerializable)) stE"
        by (simp add: run_ending_def Inr False stE_def stC_def)
      then have en: "run_ending self rid (runs w) (staged_state rid (started_state rid st) S evs) res
              [(runs w)(rid \<mapsto> stC), (runs w)(rid \<mapsto> stE)]
              (Some (RunEvent rid run_completed) # failure_events rid (exc_str self NotSerializable)) stE"
        by (simp add: stF_def st1_def)
      have tl: "timeline w' = timeline w @ (runs w)(rid \<mapsto> started_state rid st) # ns
            @ [(runs w)(rid \<mapsto> stC), (runs w)(rid \<mapsto> stE)]"
      proof -
        have "timeline w3 = timeline w2 @ [(runs w)(rid \<mapsto> stC)]"
          unfolding w3_def by (rule timeline_push)
        moreover have "timeline w' = timeline w3 @ [(runs w)(rid \<mapsto> stE)]"
          unfolding w'_def by (rule timeline_push)
        ultimately show ?thesis by (simp add: t2 st1_def)
      qed
      have rw: "runs w' = (runs w)(rid \<mapsto> stE)" and iw: "invoked w' = invoked w @ invs"
        by (simp_all add: w'_def w3_def i2)
      show ?thesis
        unfolding x using st[unfolded st1_def] by (rule tracking_summaryI[OF rw tl _ iw sr en])
    qed
  qed
qed

lemma create_run_eq:
  "create_run reg rid (req_run_name req) req = (created_state rid req, reg(rid \<mapsto> created_state rid req))"
  by (simp add: create_run_def created_state_def Let_def)

lemma created_fields:
  "run_id (created_state rid req) = rid" "run_status (created_state rid req) = queued"
  "outputs (created_state rid req) = []"
  "queue (created_state rid req) =
     [Some (Init rid (req_run_name req) (stage_snapshots (created_state rid req)))]"
  by (simp_all add: created_state_def create_run_def Let_def stage_snapshots_def)

lemma trigger_lifecycle:
  assumes rid: "rid \<noteq> []"
  shows "\<exists>S evs ns res fin cl stE. lifecycle self rid req w S evs ns res fin cl stE"
proof -
  define stc where "stc = created_state rid req"
  define wc where "wc = w\<lparr>runs := (runs w)(rid \<mapsto> stc), past := runs w # past w\<rparr>"
  have tr: "trigger_pipeline_run self rid req w = execute_with_tracking self rid req wc"
    by (simp add: trigger_pipeline_run_def call_def create_run_eq wc_def stc_def created_fields)
  have k: "runs wc rid = Some stc" by (simp add: wc_def)
  have tc: "timeline wc = timeline w @ [(runs w)(rid \<mapsto> stc)]"
    unfolding wc_def by (rule timeline_push)
  have ic: "invoked wc = invoked w" by (simp add: wc_def)
  have up: "\<And>x. (runs wc)(rid \<mapsto> x) = (runs w)(rid \<mapsto> x)" by (simp add: wc_def)
  have pr: "progress (runs wc) rid = progress (runs w) rid"
    by (simp add: progress_def fun_eq_iff wc_def)
  from execute_with_tracking_summary[OF rid k, of self req]
  obtain S evs ns invs res fin cl stE where
    a: "fst (execute_with_tracking self rid req wc) = None"
    and b: "runs (snd (execute_with_tracking self rid req wc)) = (runs wc)(rid \<mapsto> stE)"
    and c: "timeline (snd (execute_with_tracking self rid req wc))
              = timeline wc @ (runs wc)(rid \<mapsto> started_state rid stc) # ns @ fin"
    and d: "list_all (steady (runs wc) rid (started_state rid stc) evs) ns"
    and e: "invoked (snd (execute_with_tracking self rid req wc)) = invoked wc @ invs"
    and f: "stages_result self S evs invs res"
    and g: "run_ending self rid (runs wc) (staged_state rid (started_state rid stc) S evs) res fin cl stE"
    unfolding tracking_summary_def by blast
  have h: "run_history self rid req w
      = (runs w)(rid \<mapsto> stc) # (runs w)(rid \<mapsto> started_state rid stc) # ns @ fin"
    by (simp add: run_history_def tr c tc up)
  have i: "run_invoked self rid req w = invs"
    by (simp add: run_invoked_def tr e ic)
  have "steady (runs wc) rid (started_state rid stc) evs = steady (runs w) rid (started_state rid stc) evs"
    by (simp add: steady_def pr fun_eq_iff)
  with d have d': "list_all (steady (runs w) rid (started_state rid stc) evs) ns"
    by simp
  have g': "run_ending self rid (runs w) (staged_state rid (started_state rid stc) S evs) res fin cl stE"
    using g by (simp add: run_ending_def up split: sum.splits if_splits)
  have "lifecycle self rid req w S evs ns res fin cl stE"
    unfolding lifecycle_def using a b h d' f g' i by (simp add: tr up stc_def)
  then show ?thesis by blast
qed

lemma view_upd:
  "status_in rid (reg(rid \<mapsto> st)) = Some (run_status st)"
  "outputs_in rid (reg(rid \<mapsto> st)) = Some (outputs st)"
  "queue_in rid (reg(rid \<mapsto> st)) = queue st"
  by (simp_all add: status_in_def outputs_in_def queue_in_def get_status_def)

lemma steady_view:
  assumes "steady reg0 rid st1 evs n"
  shows "status_in rid n = Some (run_status st1)" "outputs_in rid n = Some (outputs st1)"
    "\<exists>evs' rest. evs = evs' @ rest
        \<and> queue_in rid n = queue st1 @ map (\<lambda>sn. Some (StageEvent rid sn)) evs'"
  using assms by (auto simp: steady_def progress_def view_upd)

lemma started_fields:
  "run_status (started_state rid st) = running" "outputs (started_state rid st) = outputs st"
  "queue (started_state rid st) = queue st @ [Some (RunEvent rid running)]"
  by (simp_all add: started_state_def)

lemma staged_fields:
  "run_status (staged_state rid st S evs) = run_status st"
  "outputs (staged_state rid st S evs) = outputs st"
  "stages (staged_state rid st S evs) = S"
  "queue (staged_state rid st S evs) = queue st @ map (\<lambda>sn. Some (StageEvent rid sn)) evs"
  by (simp_all add: staged_state_def)

lemma ending_cases:
  assumes "run_ending self rid reg stF res fin cl stE"
  shows "queue stE = queue stF @ cl \<and> stages stE = stages stF
     \<and> ((\<exists>resp. res = Inr resp
            \<and> cl = [Some (RunEvent rid run_completed), Some (Complete rid resp), None]
            \<and> run_status stE = run_completed \<and> fin = [reg(rid \<mapsto> stE)])
         \<or> (\<exists>resp stC. res = Inr resp
            \<and> cl = [Some (RunEvent rid run_completed), Some (RunEvent rid error),
                    Some (ErrorEvent rid (exc_str self NotSerializable)), None]
            \<and> run_status stE = error \<and> fin = [reg(rid \<mapsto> stC), reg(rid \<mapsto> stE)]
            \<and> run_status stC = run_completed \<and> outputs stC = outputs stE
            \<and> queue stC = queue stF @ [Some (RunEvent rid run_completed)])
         \<or> (\<exists>exc. res = Inl exc
            \<and> cl = [Some (RunEvent rid error), Some (ErrorEvent rid (exc_str self exc)), None]
            \<and> run_status stE = error \<and> outputs stE = outputs stF \<and> fin = [reg(rid \<mapsto> stE)]))"
proof (cases res)
  case (Inl exc)
  with assms show ?thesis by (simp add: run_ending_def failure_events_def)
next
  case (Inr resp)
  show ?thesis
  proof (cases "response_json_ok resp")
    case True
    with assms Inr show ?thesis by (simp add: run_ending_def)
  next
    case False
    with assms Inr have cl: "cl = [Some (RunEvent rid run_completed), Some (RunEvent rid error),
                    Some (ErrorEvent rid (exc_str self NotSerializable)), None]"
      and stE: "stE = stF\<lparr>run_status := error, outputs := resp_outputs resp, queue := queue stF @ cl\<rparr>"
      and fin: "fin = [reg(rid \<mapsto> stF\<lparr>run_status := run_completed, outputs := resp_outputs resp,
                         queue := queue stF @ [Some (RunEvent rid run_completed)]\<rparr>), reg(rid \<mapsto> stE)]"
      by (simp_all add: run_ending_def failure_events_def)
    let ?stC = "stF\<lparr>run_status := run_completed, outputs := resp_outputs resp,
                         queue := queue stF @ [Some (RunEvent rid run_completed)]\<rparr>"
    have q: "queue stE = queue stF @ cl" "stages stE = stages stF"
      using stE by simp_all
    have "\<exists>resp stC. res = Inr resp
            \<and> cl = [Some (RunEvent rid run_completed), Some (RunEvent rid error),
                    Some (ErrorEvent rid (exc_str self NotSerializable)), None]
            \<and> run_status stE = error \<and> fin = [reg(rid \<mapsto> stC), reg(rid \<mapsto> stE)]
            \<and> run_status stC = run_completed \<and> outputs stC = outputs stE
            \<and> queue stC = queue stF @ [Some (RunEvent rid run_completed)]"
      by (rule exI[of _ resp], rule exI[of _ ?stC]) (simp add: Inr cl stE fin)
    with q show ?thesis by simp
  qed
qed

lemma map_const_replicate: "(\<And>x. x \<in> set xs \<Longrightarrow> f x = c) \<Longrightarrow> map f xs = replicate (length xs) c"
  by (induction xs) simp_all

lemma history_views:
  assumes l: "lifecycle self rid req w S evs ns res fin cl stE"
  obtains m tail where
    "map (view rid) (run_history self rid req w)
       = (Some queued, Some []) # replicate (Suc m) (Some running, Some []) @ tail"
    "tail = [(Some error, Some [])]
       \<or> (\<exists>outs. tail = [(Some run_completed, Some outs)]
              \<or> tail = [(Some run_completed, Some outs), (Some error, Some outs)])"
proof -
  let ?stc = "created_state rid req"
  let ?st1 = "started_state rid ?stc"
  let ?stF = "staged_state rid ?st1 S evs"
  from l have h: "run_history self rid req w = (runs w)(rid \<mapsto> ?stc) # (runs w)(rid \<mapsto> ?st1) # ns @ fin"
    and st: "list_all (steady (runs w) rid ?st1 evs) ns"
    and en: "run_ending self rid (runs w) ?stF res fin cl stE"
    by (simp_all add: lifecycle_def)
  have vn: "map (view rid) ns = replicate (length ns) (Some running, Some [])"
  proof (rule map_const_replicate)
    fix n assume "n \<in> set ns"
    with st have "steady (runs w) rid ?st1 evs n" by (simp add: list_all_iff)
    from steady_view(1,2)[OF this] show "view rid n = (Some running, Some [])"
      by (simp add: view_def started_fields created_fields)
  qed
  have v0: "view rid ((runs w)(rid \<mapsto> ?stc)) = (Some queued, Some [])"
    by (simp add: view_def view_upd created_fields)
  have v1: "view rid ((runs w)(rid \<mapsto> ?st1)) = (Some running, Some [])"
    by (simp add: view_def view_upd started_fields created_fields)
  have oF: "outputs ?stF = []" by (simp add: staged_fields started_fields created_fields)
  from ending_cases[OF en]
  have "map (view rid) fin = [(Some error, Some [])]
      \<or> (\<exists>outs. map (view rid) fin = [(Some run_completed, Some outs)]
            \<or> map (view rid) fin = [(Some run_completed, Some outs), (Some error, Some outs)])"
    by (auto simp: view_def view_upd oF)
  moreover have "map (view rid) (run_history self rid req w)
      = (Some queued, Some []) # replicate (Suc (length ns)) (Some running, Some []) @ map (view rid) fin"
    by (simp add: h v0 v1 vn)
  ultimately show ?thesis
    by (intro that[of "length ns" "map (view rid) fin"]) simp_all
qed

lemma rank_in_view: "rank_in rid reg = (case fst (view rid reg) of None \<Rightarrow> 0 | Some s \<Rightarrow> status_rank s)"
  by (simp add: rank_in_def view_def)

text \<open>
  C4. Along the registries a status query can see during the life of a run, from the
  return of \<open>create_run\<close> to the end of \<open>execute_with_tracking\<close>, the rank of the
  run's status (queued, then running, then completed or error) never decreases; so once
  a query has shown completed or error, no later query shows queued or running.
\<close>

theorem run_status_monotonic:
  assumes "rid \<noteq> []"
  shows "sorted (map (rank_in rid) (run_history self rid req w))
     \<and> (\<forall>i j. i \<le> j \<and> j < length (run_history self rid req w)
            \<and> (status_in rid (run_history self rid req w ! i) = Some run_completed
                 \<or> status_in rid (run_history self rid req w ! i) = Some error)
          \<longrightarrow> (status_in rid (run_history self rid req w ! j) = Some run_completed
                 \<or> status_in rid (run_history self rid req w ! j) = Some error))"
proof -
  let ?h = "run_history self rid req w"
  from trigger_lifecycle[OF assms, of self req w]
  obtain S evs ns res fin cl stE where l: "lifecycle self rid req w S evs ns res fin cl stE" by blast
  obtain m tail where
    v: "map (view rid) ?h = (Some queued, Some []) # replicate (Suc m) (Some running, Some []) @ tail"
    and t: "tail = [(Some error, Some [])]
              \<or> (\<exists>outs. tail = [(Some run_completed, Some outs)]
                     \<or> tail = [(Some run_completed, Some outs), (Some error, Some outs)])"
    by (rule history_views[OF l])
  have "map (rank_in rid) ?h = map (\<lambda>v. case fst v of None \<Rightarrow> 0 | Some s \<Rightarrow> status_rank s) (map (view rid) ?h)"
    by (simp add: rank_in_view)
  also have "\<dots> = 0 # replicate (Suc m) 1 @ map (\<lambda>v. case fst v of None \<Rightarrow> 0 | Some s \<Rightarrow> status_rank s) tail"
    unfolding v by simp
  finally have r: "map (rank_in rid) ?h
      = 0 # replicate (Suc m) 1 @ map (\<lambda>v. case fst v of None \<Rightarrow> 0 | Some s \<Rightarrow> status_rank s) tail" .
  have s: "sorted (map (rank_in rid) ?h)"
    unfolding r using t by (auto simp: sorted_append)
  have tm: "(status_in rid x = Some run_completed \<or> status_in rid x = Some error) \<longleftrightarrow> 2 \<le> rank_in rid x" for x
  proof (cases "status_in rid x")
    case None
    then show ?thesis by (simp add: rank_in_def)
  next
    case (Some a)
    then show ?thesis by (cases a) (simp_all add: rank_in_def)
  qed
  have "\<forall>i j. i \<le> j \<and> j < length ?h \<and> 2 \<le> rank_in rid (?h ! i) \<longrightarrow> 2 \<le> rank_in rid (?h ! j)"
  proof (intro allI impI)
    fix i j assume a: "i \<le> j \<and> j < length ?h \<and> 2 \<le> rank_in rid (?h ! i)"
    then have "map (rank_in rid) ?h ! i \<le> map (rank_in rid) ?h ! j"
      using s by (intro sorted_nth_mono) simp_all
    with a show "2 \<le> rank_in rid (?h ! j)" by simp
  qed
  with s show ?thesis unfolding tm by blast
qed

theorem run_status_monotonic_witness:
  "''r1'' \<noteq> []
   \<and> sorted (map (rank_in ''r1'') (run_history demo_runner ''r1'' demo_request fresh_manager))"
  using run_status_monotonic[of "''r1''" demo_runner demo_request fresh_manager]
  by simp

lemma occo_replicate:
  "outputs_change_only_on_completion ((a, b) # replicate m (a, b) @ tail)
     = outputs_change_only_on_completion ((a, b) # tail)"
  by (induction m) simp_all

text \<open>
  C8. In every registry a status query can see during the life of a run, a status that
  is queued or running comes with empty outputs; and from one such registry to the next
  the outputs change only when the next one shows the status completed.
\<close>

theorem outputs_empty_until_terminal:
  assumes "rid \<noteq> []"
  shows "(\<forall>reg \<in> set (run_history self rid req w).
            not_terminal (status_in rid reg) \<longrightarrow> outputs_in rid reg = Some [])
     \<and> outputs_change_only_on_completion (map (view rid) (run_history self rid req w))"
proof -
  let ?h = "run_history self rid req w"
  from trigger_lifecycle[OF assms, of self req w]
  obtain S evs ns res fin cl stE where l: "lifecycle self rid req w S evs ns res fin cl stE" by blast
  obtain m tail where
    v: "map (view rid) ?h = (Some queued, Some []) # replicate (Suc m) (Some running, Some []) @ tail"
    and t: "tail = [(Some error, Some [])]
              \<or> (\<exists>outs. tail = [(Some run_completed, Some outs)]
                     \<or> tail = [(Some run_completed, Some outs), (Some error, Some outs)])"
    by (rule history_views[OF l])
  have a: "\<forall>x \<in> set (map (view rid) ?h). not_terminal (fst x) \<longrightarrow> snd x = Some []"
    unfolding v using t by (auto simp: not_terminal_def)
  have b: "outputs_change_only_on_completion (map (view rid) ?h)"
    unfolding v using t by (auto simp: occo_replicate)
  from a have "\<forall>reg \<in> set ?h. not_terminal (status_in rid reg) \<longrightarrow> outputs_in rid reg = Some []"
    by (simp add: view_def)
  with b show ?thesis by blast
qed

theorem outputs_empty_until_terminal_witness:
  "''r1'' \<noteq> []
   \<and> not_terminal (status_in ''r1'' (run_history demo_runner ''r1'' demo_request fresh_manager ! 1))
   \<and> outputs_in ''r1'' (run_history demo_runner ''r1'' demo_request fresh_manager ! 1) = Some []
   \<and> outputs_change_only_on_completion
        (map (view ''r1'') (run_history demo_runner ''r1'' demo_request fresh_manager))"
proof -
  have h: "''r1'' \<noteq> []" by simp
  have len: "1 < length (run_history demo_runner ''r1'' demo_request fresh_manager)"
    by code_simp
  have nt: "not_terminal (status_in ''r1''
              (run_history demo_runner ''r1'' demo_request fresh_manager ! 1))"
    by code_simp
  from outputs_empty_until_terminal[OF h, of demo_runner demo_request fresh_manager]
    nth_mem[OF len] nt h
  show ?thesis by blast
qed

lemma stage_trace_append: "stage_trace (xs @ ys) = stage_trace xs @ stage_trace ys"
  by (induction xs rule: stage_trace.induct) simp_all

lemma stage_trace_events: "stage_trace (map (\<lambda>sn. Some (StageEvent rid sn)) evs) = trace_of evs"
  by (induction evs) (simp_all add: trace_of_def)

lemma final_queue_shape:
  assumes l: "lifecycle self rid req w S evs ns res fin cl stE"
  shows "final_queue self rid req w =
           Some (Init rid (req_run_name req) (stage_snapshots (created_state rid req)))
           # Some (RunEvent rid running) # map (\<lambda>sn. Some (StageEvent rid sn)) evs @ cl"
proof -
  from l have r: "runs (snd (trigger_pipeline_run self rid req w)) = (runs w)(rid \<mapsto> stE)"
    and en: "run_ending self rid (runs w)
       (staged_state rid (started_state rid (created_state rid req)) S evs) res fin cl stE"
    by (simp_all add: lifecycle_def)
  from ending_cases[OF en]
  have "queue stE = queue (staged_state rid (started_state rid (created_state rid req)) S evs) @ cl"
    by simp
  then show ?thesis
    by (simp add: final_queue_def r view_upd staged_fields started_fields created_fields)
qed

lemma closing_forms:
  assumes "run_ending self rid reg stF res fin cl stE"
  shows "(\<exists>resp. res = Inr resp \<and> cl = [Some (RunEvent rid run_completed), Some (Complete rid resp), None])
       \<or> cl = [Some (RunEvent rid run_completed), Some (RunEvent rid error),
                Some (ErrorEvent rid (exc_str self NotSerializable)), None]
       \<or> (\<exists>exc. res = Inl exc \<and> cl = [Some (RunEvent rid error), Some (ErrorEvent rid (exc_str self exc)), None])"
  using ending_cases[OF assms] by auto

lemma queue_grows:
  assumes l: "lifecycle self rid req w S evs ns res fin cl stE"
      and m: "reg \<in> set (run_history self rid req w)"
  shows "\<exists>rest. final_queue self rid req w = queue_in rid reg @ rest"
proof -
  let ?stc = "created_state rid req"
  let ?st1 = "started_state rid ?stc"
  let ?stF = "staged_state rid ?st1 S evs"
  let ?init = "Some (Init rid (req_run_name req) (stage_snapshots ?stc))"
  note q = final_queue_shape[OF l]
  from l have h: "run_history self rid req w = (runs w)(rid \<mapsto> ?stc) # (runs w)(rid \<mapsto> ?st1) # ns @ fin"
    and st: "list_all (steady (runs w) rid ?st1 evs) ns"
    and en: "run_ending self rid (runs w) ?stF res fin cl stE"
    and r: "runs (snd (trigger_pipeline_run self rid req w)) = (runs w)(rid \<mapsto> stE)"
    by (simp_all add: lifecycle_def)
  from m h consider (c) "reg = (runs w)(rid \<mapsto> ?stc)" | (s) "reg = (runs w)(rid \<mapsto> ?st1)"
    | (n) "reg \<in> set ns" | (f) "reg \<in> set fin" by auto
  then show ?thesis
  proof cases
    case c
    then show ?thesis by (simp add: q view_upd created_fields)
  next
    case s
    then show ?thesis by (simp add: q view_upd started_fields created_fields)
  next
    case n
    with st have "steady (runs w) rid ?st1 evs reg" by (simp add: list_all_iff)
    from steady_view(3)[OF this] obtain evs' rest where "evs = evs' @ rest"
      and "queue_in rid reg = queue ?st1 @ map (\<lambda>sn. Some (StageEvent rid sn)) evs'" by blast
    then show ?thesis by (simp add: q started_fields created_fields)
  next
    case f
    have qF: "queue ?stF = ?init # Some (RunEvent rid running) # map (\<lambda>sn. Some (StageEvent rid sn)) evs"
      by (simp add: staged_fields started_fields created_fields)
    have fq: "final_queue self rid req w = queue stE"
      by (simp add: final_queue_def r view_upd)
    from ending_cases[OF en] f have
      "reg = (runs w)(rid \<mapsto> stE)
       \<or> (\<exists>stC. reg = (runs w)(rid \<mapsto> stC) \<and> queue stC = queue ?stF @ [Some (RunEvent rid run_completed)]
             \<and> cl = [Some (RunEvent rid run_completed), Some (RunEvent rid error),
                    Some (ErrorEvent rid (exc_str self NotSerializable)), None])"
      by auto
    then show ?thesis
    proof
      assume "reg = (runs w)(rid \<mapsto> stE)"
      then show ?thesis by (simp add: fq view_upd)
    next
      assume "\<exists>stC. reg = (runs w)(rid \<mapsto> stC) \<and> queue stC = queue ?stF @ [Some (RunEvent rid run_completed)]
             \<and> cl = [Some (RunEvent rid run_completed), Some (RunEvent rid error),
                    Some (ErrorEvent rid (exc_str self NotSerializable)), None]"
      then show ?thesis by (auto simp: q qF view_upd)
    qed
  qed
qed

text \<open>
  C2. When the run is over, its queue is some non-terminal events, then one terminal
  event (\<open>complete\<close> or \<open>error\<close>), then the sentinel None, and nothing after it.
  Every queue seen during the run is an initial part of this one, so no other terminal
  event or sentinel was ever enqueued.
\<close>

theorem one_terminal_event_then_close:
  assumes "rid \<noteq> []"
  shows "(\<exists>pre t. final_queue self rid req w = pre @ [t, None] \<and> is_terminal_event t
            \<and> list_all (\<lambda>x. x \<noteq> None \<and> \<not> is_terminal_event x) pre)
       \<and> (\<forall>reg \<in> set (run_history self rid req w).
             \<exists>rest. final_queue self rid req w = queue_in rid reg @ rest)"
proof -
  from trigger_lifecycle[OF assms, of self req w]
  obtain S evs ns res fin cl stE where l: "lifecycle self rid req w S evs ns res fin cl stE" by blast
  let ?head = "Some (Init rid (req_run_name req) (stage_snapshots (created_state rid req)))
           # Some (RunEvent rid running) # map (\<lambda>sn. Some (StageEvent rid sn)) evs"
  note q = final_queue_shape[OF l]
  from l have en: "run_ending self rid (runs w)
       (staged_state rid (started_state rid (created_state rid req)) S evs) res fin cl stE"
    by (simp add: lifecycle_def)
  have hd: "list_all (\<lambda>x. x \<noteq> None \<and> \<not> is_terminal_event x) ?head"
    by (simp add: list_all_iff image_iff)
  from closing_forms[OF en]
  have "\<exists>mid t. cl = mid @ [t, None] \<and> is_terminal_event t
          \<and> list_all (\<lambda>x. x \<noteq> None \<and> \<not> is_terminal_event x) mid"
  proof (elim disjE exE conjE)
    fix resp assume "cl = [Some (RunEvent rid run_completed), Some (Complete rid resp), None]"
    then show ?thesis
      by (intro exI[of _ "[Some (RunEvent rid run_completed)]"] exI[of _ "Some (Complete rid resp)"]) simp
  next
    assume "cl = [Some (RunEvent rid run_completed), Some (RunEvent rid error),
                Some (ErrorEvent rid (exc_str self NotSerializable)), None]"
    then show ?thesis
      by (intro exI[of _ "[Some (RunEvent rid run_completed), Some (RunEvent rid error)]"]
            exI[of _ "Some (ErrorEvent rid (exc_str self NotSerializable))"]) simp
  next
    fix exc assume "cl = [Some (RunEvent rid error), Some (ErrorEvent rid (exc_str self exc)), None]"
    then show ?thesis
      by (intro exI[of _ "[Some (RunEvent rid error)]"] exI[of _ "Some (ErrorEvent rid (exc_str self exc))"]) simp
  qed
  then obtain mid t where cl: "cl = mid @ [t, None]" and t: "is_terminal_event t"
    and mid: "list_all (\<lambda>x. x \<noteq> None \<and> \<not> is_terminal_event x) mid" by blast
  have "final_queue self rid req w = (?head @ mid) @ [t, None]"
    by (simp add: q cl)
  moreover have "list_all (\<lambda>x. x \<noteq> None \<and> \<not> is_terminal_event x) (?head @ mid)"
    using hd mid by simp
  ultimately have a: "\<exists>pre t. final_queue self rid req w = pre @ [t, None] \<and> is_terminal_event t
            \<and> list_all (\<lambda>x. x \<noteq> None \<and> \<not> is_terminal_event x) pre"
    using t by blast
  show ?thesis using a queue_grows[OF l] by blast
qed

theorem one_terminal_event_then_close_witness:
  "''r1'' \<noteq> []
   \<and> (\<exists>pre t. final_queue failing_runner ''r1'' demo_request fresh_manager = pre @ [t, None]
         \<and> is_terminal_event t \<and> list_all (\<lambda>x. x \<noteq> None \<and> \<not> is_terminal_event x) pre)"
  using one_terminal_event_then_close[of "''r1''" failing_runner demo_request fresh_manager]
  by simp

lemma lt6: "k < 6 \<Longrightarrow> k = 0 \<or> k = 1 \<or> k = 2 \<or> k = 3 \<or> k = 4 \<or> (k::nat) = 5"
  by arith

lemma full_trace_order:
  "remdups_adj (map fst full_trace) = PIPELINE_STAGE_ORDER" "running_resolved full_trace"
  by (simp_all add: full_trace_def done_trace_def executor_stages_def PIPELINE_STAGE_ORDER_def)

lemma failed_trace_order:
  assumes "k < 6"
  shows "remdups_adj (map fst (failed_trace k)) = take (Suc k) PIPELINE_STAGE_ORDER"
    "running_resolved (failed_trace k)"
    "\<forall>t \<in> set (failed_trace k). stage_pos (fst t) \<le> stage_pos (executor_stages ! k)"
    "\<forall>s \<in> set (take (Suc k) executor_stages). stage_pos s \<le> stage_pos (executor_stages ! k)"
  using lt6[OF assms]
  by (auto simp: failed_trace_def done_trace_def executor_stages_def PIPELINE_STAGE_ORDER_def)

lemma stage_trace_final:
  assumes l: "lifecycle self rid req w S evs ns res fin cl stE"
  shows "stage_trace (final_queue self rid req w) = trace_of evs"
proof -
  from l have en: "run_ending self rid (runs w)
       (staged_state rid (started_state rid (created_state rid req)) S evs) res fin cl stE"
    by (simp add: lifecycle_def)
  from closing_forms[OF en] have "stage_trace cl = []" by auto
  then show ?thesis
    by (simp add: final_queue_shape[OF l] stage_trace_append stage_trace_events)
qed

text \<open>
  C5. When the run is over, its queue is the \<open>init\<close> event, the \<open>run\<close> event of the
  start, the stage events, and the closing items: the terminal \<open>run\<close> event(s), the
  \<open>complete\<close> or \<open>error\<close> event and the sentinel, last. The stage events are those
  of the first stages in declared order, each \<open>running\<close> then \<open>done\<close>, ended by the
  completion marker or by the \<open>running\<close> and \<open>error\<close> of the stage that failed: their
  stages, repeats dropped, are an initial part of the declared order, and every
  \<open>running\<close> is directly followed by \<open>done\<close> or \<open>error\<close> of the same stage. Every
  queue seen during the run is an initial part of the final one: events stay in the
  order they were enqueued.
\<close>

theorem events_in_order:
  assumes "rid \<noteq> []"
  shows "(\<exists>snaps evs cl.
            final_queue self rid req w =
              Some (Init rid (req_run_name req) snaps) # Some (RunEvent rid running)
              # map (\<lambda>sn. Some (StageEvent rid sn)) evs @ cl
            \<and> ((\<exists>resp. cl = [Some (RunEvent rid run_completed), Some (Complete rid resp), None]
                       \<and> stage_trace (final_queue self rid req w) = full_trace)
               \<or> (\<exists>m. cl = [Some (RunEvent rid run_completed), Some (RunEvent rid error),
                             Some (ErrorEvent rid m), None]
                       \<and> stage_trace (final_queue self rid req w) = full_trace)
               \<or> (\<exists>m. cl = [Some (RunEvent rid error), Some (ErrorEvent rid m), None])))
       \<and> (stage_trace (final_queue self rid req w) = full_trace
           \<or> (\<exists>k<6. stage_trace (final_queue self rid req w) = failed_trace k))
       \<and> (\<exists>n. remdups_adj (map fst (stage_trace (final_queue self rid req w)))
                 = take n PIPELINE_STAGE_ORDER)
       \<and> running_resolved (stage_trace (final_queue self rid req w))
       \<and> (\<forall>reg \<in> set (run_history self rid req w).
             \<exists>rest. final_queue self rid req w = queue_in rid reg @ rest)"
proof -
  let ?q = "final_queue self rid req w"
  from trigger_lifecycle[OF assms, of self req w]
  obtain S evs ns res fin cl stE where l: "lifecycle self rid req w S evs ns res fin cl stE" by blast
  note q = final_queue_shape[OF l]
  note tr = stage_trace_final[OF l]
  from l have en: "run_ending self rid (runs w)
       (staged_state rid (started_state rid (created_state rid req)) S evs) res fin cl stE"
    and sr: "stages_result self S evs (run_invoked self rid req w) res"
    by (simp_all add: lifecycle_def)
  have t: "stage_trace ?q = full_trace \<or> (\<exists>k<6. stage_trace ?q = failed_trace k)"
    using sr unfolding stages_result_def tr by blast
  have inr: "stage_trace ?q = full_trace" if "res = Inr resp" for resp
    using sr that unfolding stages_result_def tr by auto
  have cl: "(\<exists>resp. cl = [Some (RunEvent rid run_completed), Some (Complete rid resp), None]
                       \<and> stage_trace ?q = full_trace)
               \<or> (\<exists>m. cl = [Some (RunEvent rid run_completed), Some (RunEvent rid error),
                             Some (ErrorEvent rid m), None]
                       \<and> stage_trace ?q = full_trace)
               \<or> (\<exists>m. cl = [Some (RunEvent rid error), Some (ErrorEvent rid m), None])"
    using ending_cases[OF en] inr by auto
  have a: "\<exists>snaps evs cl.
            ?q = Some (Init rid (req_run_name req) snaps) # Some (RunEvent rid running)
              # map (\<lambda>sn. Some (StageEvent rid sn)) evs @ cl
            \<and> ((\<exists>resp. cl = [Some (RunEvent rid run_completed), Some (Complete rid resp), None]
                       \<and> stage_trace ?q = full_trace)
               \<or> (\<exists>m. cl = [Some (RunEvent rid run_completed), Some (RunEvent rid error),
                             Some (ErrorEvent rid m), None]
                       \<and> stage_trace ?q = full_trace)
               \<or> (\<exists>m. cl = [Some (RunEvent rid error), Some (ErrorEvent rid m), None]))"
    using q cl by blast
  have o: "(\<exists>n. remdups_adj (map fst (stage_trace ?q)) = take n PIPELINE_STAGE_ORDER)
      \<and> running_resolved (stage_trace ?q)"
    using t
  proof
    assume f: "stage_trace ?q = full_trace"
    have "remdups_adj (map fst full_trace) = take 7 PIPELINE_STAGE_ORDER"
      by (simp add: full_trace_order(1)) (simp add: PIPELINE_STAGE_ORDER_def)
    then show ?thesis unfolding f using full_trace_order(2) by blast
  next
    assume "\<exists>k<6. stage_trace ?q = failed_trace k"
    then obtain k where k: "k < 6" and f: "stage_trace ?q = failed_trace k" by blast
    show ?thesis unfolding f using failed_trace_order(1,2)[OF k] by blast
  qed
  show ?thesis using a t o queue_grows[OF l] by blast
qed

theorem events_in_order_witness:
  "''r1'' \<noteq> []
   \<and> (stage_trace (final_queue demo_runner ''r1'' demo_request fresh_manager) = full_trace
       \<or> (\<exists>k<6. stage_trace (final_queue demo_runner ''r1'' demo_request fresh_manager)
                   = failed_trace k))
   \<and> (\<exists>n. remdups_adj (map fst (stage_trace (final_queue demo_runner ''r1'' demo_request
              fresh_manager))) = take n PIPELINE_STAGE_ORDER)
   \<and> running_resolved (stage_trace (final_queue demo_runner ''r1'' demo_request fresh_manager))"
  using events_in_order[of "''r1''" demo_runner demo_request fresh_manager]
  by simp

lemma in_set_butlast_or_last: "x \<in> set xs \<Longrightarrow> x \<in> set (butlast xs) \<or> x = last xs"
  by (induction xs) (auto split: if_splits)

text \<open>
  C1. If, in a tracked run, the executor of stage \<open>s\<close> is invoked and raises \<open>exc\<close>,
  then the run ends with status error and with the snapshot of \<open>s\<close> recorded as
  \<open>error\<close> with \<open>str(exc)\<close> as detail; no executor of a later stage is invoked and no
  stage event of a later stage is enqueued; and the exception that reaches
  \<open>execute_with_tracking\<close> is the one tagged with the stage, whose text
  \<open>Stage <s> failed\<close> is the message of the terminal \<open>error\<close> event.
\<close>

theorem stage_failure_stops_run:
  assumes rid: "rid \<noteq> []"
      and x: "(s, Inl exc) \<in> set (run_invoked self rid req w)"
  shows "(\<exists>state. runs (snd (trigger_pipeline_run self rid req w)) rid = Some state
            \<and> run_status state = error
            \<and> stages state s = Some \<lparr>stage = s, status = ''error'',
                                      detail = Some (exc_str self exc), payload = None\<rparr>)
       \<and> (\<forall>i \<in> set (run_invoked self rid req w). stage_pos (fst i) \<le> stage_pos s)
       \<and> (\<forall>t \<in> set (stage_trace (final_queue self rid req w)). stage_pos (fst t) \<le> stage_pos s)
       \<and> (\<exists>pre. final_queue self rid req w =
             pre @ [Some (RunEvent rid error),
                    Some (ErrorEvent rid (''Stage '' @ stage_value s @ '' failed'')), None])"
proof -
  let ?invs = "run_invoked self rid req w"
  from trigger_lifecycle[OF rid, of self req w]
  obtain S evs ns res fin cl stE where l: "lifecycle self rid req w S evs ns res fin cl stE" by blast
  note tr = stage_trace_final[OF l]
  from l have en: "run_ending self rid (runs w)
       (staged_state rid (started_state rid (created_state rid req)) S evs) res fin cl stE"
    and sr: "stages_result self S evs ?invs res"
    and r: "runs (snd (trigger_pipeline_run self rid req w)) = (runs w)(rid \<mapsto> stE)"
    by (simp_all add: lifecycle_def)
  have nr: "\<not> returned (s, Inl exc)" by (simp add: returned_def)
  from sr x nr obtain k exc' where k: "k < 6" and t: "trace_of evs = failed_trace k"
    and iv: "map fst ?invs = take (Suc k) executor_stages"
    and ok: "list_all returned (butlast ?invs)"
    and res: "res = Inl (stage_failed (executor_stages ! k))"
    and S: "S (executor_stages ! k) = Some (error_snapshot self (executor_stages ! k) exc')"
    and e: "\<forall>e. snd (last ?invs) = Inl e \<longrightarrow> exc' = e"
    unfolding stages_result_def by (auto simp: list_all_iff)
  from in_set_butlast_or_last[OF x] ok nr have la: "last ?invs = (s, Inl exc)"
    by (auto simp: list_all_iff)
  from x have ne: "?invs \<noteq> []" by auto
  have "fst (last ?invs) = last (map fst ?invs)" using ne by (simp add: last_map)
  also have "\<dots> = executor_stages ! k"
    unfolding iv using k by (simp add: take_stages_Suc)
  finally have s: "s = executor_stages ! k" using la by simp
  from e la have exc: "exc' = exc" by simp
  from ending_cases[OF en] res
  have st: "run_status stE = error" and sg: "stages stE = S"
    and cl: "cl = [Some (RunEvent rid error), Some (ErrorEvent rid (exc_str self (stage_failed s))), None]"
    by (auto simp: staged_fields s)
  have a: "\<exists>state. runs (snd (trigger_pipeline_run self rid req w)) rid = Some state
            \<and> run_status state = error
            \<and> stages state s = Some \<lparr>stage = s, status = ''error'',
                                      detail = Some (exc_str self exc), payload = None\<rparr>"
    using r st sg S by (simp add: s exc error_snapshot_def)
  have b: "\<forall>i \<in> set ?invs. stage_pos (fst i) \<le> stage_pos s"
  proof
    fix i assume "i \<in> set ?invs"
    then have "fst i \<in> set (map fst ?invs)" by simp
    then show "stage_pos (fst i) \<le> stage_pos s"
      unfolding iv s using failed_trace_order(4)[OF k] by blast
  qed
  have c: "\<forall>t \<in> set (stage_trace (final_queue self rid req w)). stage_pos (fst t) \<le> stage_pos s"
    unfolding tr t s using failed_trace_order(3)[OF k] by blast
  have d: "\<exists>pre. final_queue self rid req w =
             pre @ [Some (RunEvent rid error),
                    Some (ErrorEvent rid (''Stage '' @ stage_value s @ '' failed'')), None]"
    unfolding final_queue_shape[OF l] cl
    by (intro exI[of _ "Some (Init rid (req_run_name req) (stage_snapshots (created_state rid req)))
           # Some (RunEvent rid running) # map (\<lambda>sn. Some (StageEvent rid sn)) evs"])
       (simp add: stage_failed_def exc_str_def)
  show ?thesis using a b c d by blast
qed

theorem stage_failure_stops_run_witness:
  "''r1'' \<noteq> []
   \<and> (editing, Inl (Failure ''no clips''))
       \<in> set (run_invoked failing_runner ''r1'' demo_request fresh_manager)
   \<and> (\<exists>state. runs (snd (trigger_pipeline_run failing_runner ''r1'' demo_request fresh_manager))
                  ''r1'' = Some state
         \<and> run_status state = error
         \<and> stages state editing = Some \<lparr>stage = editing, status = ''error'',
                                            detail = Some ''no clips'', payload = None\<rparr>)
   \<and> (\<exists>pre. final_queue failing_runner ''r1'' demo_request fresh_manager =
         pre @ [Some (RunEvent ''r1'' error),
                Some (ErrorEvent ''r1'' ''Stage editing failed''), None])"
proof -
  have h1: "''r1'' \<noteq> []" by simp
  have h2: "(editing, Inl (Failure ''no clips''))
       \<in> set (run_invoked failing_runner ''r1'' demo_request fresh_manager)"
    by code_simp
  from stage_failure_stops_run[OF h1 h2] h1 h2 show ?thesis by (simp add: exc_str_def)
qed

end
